theory Spec2Isabelle
  imports Main "HOL-Library.Product_Lexorder" "HOL-Library.Multiset"
begin

section \<open>Common notions\<close>

text \<open>
  The two programs are Python. Integers are unbounded (\<open>int\<close>), list positions are
  \<open>nat\<close>. Exceptions are values: a function that may raise returns \<open>py_error + 'a\<close>.
  A \<open>while\<close> loop that is not structurally bounded is one iteration function
  (returning either the value of the \<open>return\<close> statement or the next loop state) that
  is iterated by a \<open>partial_function\<close> in the option monad, where \<open>None\<close> stands for
  a loop that never returns.
\<close>

datatype py_error = KeyError | ValueError | IndexError

datatype ('r, 's) loop_step = Done 'r | Next 's

text \<open>
  \<open>heapq\<close>: a binary heap over Python tuples. Only two operations are used,
  \<open>heappush\<close> and \<open>heappop\<close>, and \<open>heappop\<close> returns the smallest entry under the
  (lexicographic) tuple order. The heap is modelled by the list of its entries in ascending
  order of the comparison key, so that \<open>heappop\<close> takes the head.
\<close>

definition heappush :: "('e \<Rightarrow> 'k::linorder) \<Rightarrow> 'e list \<Rightarrow> 'e \<Rightarrow> 'e list" where
  "heappush key heap e = insort_key key e heap"

text \<open>\<open>tuple.index(v)\<close>: position of the first occurrence, \<open>None\<close> where Python raises
  \<open>ValueError\<close>.\<close>

fun tuple_index :: "'a list \<Rightarrow> 'a \<Rightarrow> nat option" where
  "tuple_index [] v = None"
| "tuple_index (x # xs) v = (if x = v then Some 0 else map_option Suc (tuple_index xs v))"


section \<open>robopath.py: A* on a grid\<close>

type_synonym Point = "int \<times> int"

definition manhattan :: "Point \<Rightarrow> Point \<Rightarrow> int" where
  "manhattan a b = \<bar>fst a - fst b\<bar> + \<bar>snd a - snd b\<bar>"

definition neighbors :: "Point \<Rightarrow> int \<Rightarrow> int \<Rightarrow> Point list" where
  "neighbors pt width height =
     (let x = fst pt; y = snd pt in
      (if x > 0 then [(x - 1, y)] else []) @
      (if x < width - 1 then [(x + 1, y)] else []) @
      (if y > 0 then [(x, y - 1)] else []) @
      (if y < height - 1 then [(x, y + 1)] else []))"

text \<open>
  The local variables of \<open>astar\<close>. A frontier entry is the tuple
  \<open>(priority, tentative_g, nbr)\<close>; all three components are integers or pairs of integers,
  so Python compares whole tuples lexicographically. \<open>a_pushed\<close> is a history variable
  that is not in the source: it lists the arguments of the \<open>heappush\<close> calls made so far,
  oldest first.
\<close>

type_synonym grid_entry = "int \<times> int \<times> Point"

record astar_state =
  open_heap :: "grid_entry list"
  came_from :: "Point \<rightharpoonup> Point option"
  gscore :: "Point \<rightharpoonup> int"
  a_pushed :: "grid_entry list"

definition astar_init :: "Point \<Rightarrow> Point \<Rightarrow> astar_state" where
  "astar_init start goal =
     \<lparr>open_heap = heappush id [] (manhattan start goal, 0, start),
      came_from = [start \<mapsto> None],
      gscore = [start \<mapsto> 0],
      a_pushed = [(manhattan start goal, 0, start)]\<rparr>"

text \<open>The inner \<open>while node is not None\<close> loop that rebuilds the path (before the
  \<open>reverse\<close>); \<open>came_from[node]\<close> raises \<open>KeyError\<close> on a missing key.\<close>

partial_function (option) walk_back ::
  "(Point \<rightharpoonup> Point option) \<Rightarrow> Point option \<Rightarrow> Point list \<Rightarrow> (py_error + Point list) option"
where
  "walk_back cf node path =
     (case node of
        None \<Rightarrow> Some (Inr path)
      | Some n \<Rightarrow>
          (case cf n of
             None \<Rightarrow> Some (Inl KeyError)
           | Some node' \<Rightarrow> walk_back cf node' (path @ [n])))"

declare walk_back.simps [code]

text \<open>The body of \<open>for nbr in neighbors(current, width, height)\<close> for one \<open>nbr\<close>.\<close>

definition relax :: "Point \<Rightarrow> Point set \<Rightarrow> Point \<Rightarrow> astar_state \<Rightarrow> Point \<Rightarrow> py_error + astar_state" where
  "relax goal blocked current st nbr =
     (if nbr \<in> blocked then Inr st
      else
        (case gscore st current of
           None \<Rightarrow> Inl KeyError
         | Some gc \<Rightarrow>
             (let tentative_g = gc + 1 in
              if gscore st nbr = None \<or> tentative_g < the (gscore st nbr) then
                (let priority = tentative_g + manhattan nbr goal in
                 Inr (st\<lparr>gscore := (gscore st)(nbr \<mapsto> tentative_g),
                          open_heap := heappush id (open_heap st) (priority, tentative_g, nbr),
                          a_pushed := a_pushed st @ [(priority, tentative_g, nbr)],
                          came_from := (came_from st)(nbr \<mapsto> Some current)\<rparr>))
              else Inr st)))"

fun relax_all :: "Point \<Rightarrow> Point set \<Rightarrow> Point \<Rightarrow> Point list \<Rightarrow> astar_state \<Rightarrow> py_error + astar_state" where
  "relax_all goal blocked current [] st = Inr st"
| "relax_all goal blocked current (nbr # rest) st =
     (case relax goal blocked current st nbr of
        Inl e \<Rightarrow> Inl e
      | Inr st' \<Rightarrow> relax_all goal blocked current rest st')"

text \<open>One iteration of \<open>while open_heap\<close>. The result of \<open>astar\<close> is
  \<open>Optional[List[Point]]\<close>: \<open>None\<close> is the value of the final \<open>return None\<close>.\<close>

definition astar_iter ::
  "Point \<Rightarrow> int \<Rightarrow> int \<Rightarrow> Point set \<Rightarrow> astar_state
     \<Rightarrow> ((py_error + Point list option) option, astar_state) loop_step" where
  "astar_iter goal width height blocked st =
     (case open_heap st of
        [] \<Rightarrow> Done (Some (Inr None))
      | (_, current_g, current) # rest \<Rightarrow>
          (if current = goal then
             Done (map_option (map_sum id (\<lambda>path. Some (rev path)))
                     (walk_back (came_from st) (Some current) []))
           else
             (case relax_all goal blocked current (neighbors current width height)
                     (st\<lparr>open_heap := rest\<rparr>) of
                Inl e \<Rightarrow> Done (Some (Inl e))
              | Inr st' \<Rightarrow> Next st')))"

partial_function (option) astar_loop ::
  "Point \<Rightarrow> int \<Rightarrow> int \<Rightarrow> Point set \<Rightarrow> astar_state \<Rightarrow> (py_error + Point list option) option"
where
  "astar_loop goal width height blocked st =
     (case astar_iter goal width height blocked st of
        Done r \<Rightarrow> r
      | Next st' \<Rightarrow> astar_loop goal width height blocked st')"

declare astar_loop.simps [code]

definition astar ::
  "Point \<Rightarrow> Point \<Rightarrow> int \<Rightarrow> int \<Rightarrow> Point set \<Rightarrow> (py_error + Point list option) option" where
  "astar start goal width height blocked =
     astar_loop goal width height blocked (astar_init start goal)"


section \<open>week3.py: the 8-puzzle\<close>

text \<open>
  \<open>PuzzleState\<close> objects are never mutated after construction, so the \<open>parent\<close>
  reference is a value. \<open>__eq__\<close> and \<open>__hash__\<close> look at \<open>tiles\<close> only; the
  \<open>visited\<close> and \<open>explored\<close> sets of states are therefore modelled as sets of tile
  lists.
\<close>

datatype PuzzleState =
  PuzzleState (tiles: "int list") (moves: int) (parent: "PuzzleState option")
    (move_description: string)

definition goal_tiles :: "int list" where
  "goal_tiles = [1, 2, 3, 4, 5, 6, 7, 8, 0]"

text \<open>The \<open>for i in range(9)\<close> loop of \<open>heuristic\<close>; \<open>self.tiles[i]\<close> raises
  \<open>IndexError\<close> on a short tuple and \<open>goal.index\<close> raises \<open>ValueError\<close> on a value
  that is not a tile of the goal.\<close>

fun heuristic_loop :: "int list \<Rightarrow> nat list \<Rightarrow> int \<Rightarrow> py_error + int" where
  "heuristic_loop ts [] distance = Inr distance"
| "heuristic_loop ts (i # rest) distance =
     (if length ts \<le> i then Inl IndexError
      else if ts ! i \<noteq> 0 then
        (case tuple_index goal_tiles (ts ! i) of
           None \<Rightarrow> Inl ValueError
         | Some goal_pos \<Rightarrow>
             heuristic_loop ts rest
               (distance + (\<bar>int (i div 3) - int (goal_pos div 3)\<bar>
                          + \<bar>int (i mod 3) - int (goal_pos mod 3)\<bar>)))
      else heuristic_loop ts rest distance)"

definition heuristic :: "PuzzleState \<Rightarrow> py_error + int" where
  "heuristic s = heuristic_loop (tiles s) [0..<9] 0"

definition is_goal :: "PuzzleState \<Rightarrow> py_error + bool" where
  "is_goal s = map_sum id (\<lambda>h. h = 0) (heuristic s)"

definition directions :: "(string \<times> int \<times> int) list" where
  "directions = [(''up'', -1, 0), (''down'', 1, 0), (''left'', 0, -1), (''right'', 0, 1)]"

text \<open>The \<open>for direction, (dr, dc) in directions.items()\<close> loop of \<open>get_moves\<close>. The
  swap reads \<open>tiles_list[new_pos]\<close> first, which raises \<open>IndexError\<close> on a short
  tuple.\<close>

fun get_moves_loop ::
  "PuzzleState \<Rightarrow> nat \<Rightarrow> (string \<times> int \<times> int) list \<Rightarrow> PuzzleState list
     \<Rightarrow> py_error + PuzzleState list" where
  "get_moves_loop s blank_pos [] next_states = Inr next_states"
| "get_moves_loop s blank_pos ((direction, dr, dc) # rest) next_states =
     (let new_row = int (blank_pos div 3) + dr; new_col = int (blank_pos mod 3) + dc in
      if 0 \<le> new_row \<and> new_row < 3 \<and> 0 \<le> new_col \<and> new_col < 3 then
        (let new_pos = nat (new_row * 3 + new_col) in
         if length (tiles s) \<le> new_pos then Inl IndexError
         else
           (let new_tiles = (tiles s)[blank_pos := tiles s ! new_pos,
                                      new_pos := tiles s ! blank_pos];
                next_state = PuzzleState new_tiles (moves s + 1) (Some s) direction
            in get_moves_loop s blank_pos rest (next_states @ [next_state])))
      else get_moves_loop s blank_pos rest next_states)"

definition get_moves :: "PuzzleState \<Rightarrow> py_error + PuzzleState list" where
  "get_moves s =
     (case tuple_index (tiles s) 0 of
        None \<Rightarrow> Inl ValueError
      | Some blank_pos \<Rightarrow> get_moves_loop s blank_pos directions [])"

record EightPuzzleSolver =
  initial_state :: PuzzleState
  goal_state :: PuzzleState
  explored :: "int list set"
  nodes_expanded :: int

text \<open>\<open>EightPuzzleSolver.__init__\<close>.\<close>

definition new_solver :: "int list \<Rightarrow> py_error + EightPuzzleSolver" where
  "new_solver initial_tiles =
     (if length initial_tiles \<noteq> 9 \<or> sort initial_tiles \<noteq> map int [0..<9] then Inl ValueError
      else Inr \<lparr>initial_state = PuzzleState initial_tiles 0 None [],
                goal_state = PuzzleState goal_tiles 0 None [],
                explored = {},
                nodes_expanded = 0\<rparr>)"

text \<open>
  The state of the loop of \<open>solve\<close>: the solver object (whose \<open>explored\<close> and
  \<open>nodes_expanded\<close> attributes the loop updates) and the locals \<open>open_set\<close>,
  \<open>counter\<close> and \<open>visited\<close>. A frontier entry is \<open>(f_score, counter, state)\<close>;
  Python orders entries by the first two components and would compare the states only
  for two entries that agree on both. \<open>s_pushed\<close> is a history variable that is not in
  the source: the arguments of the \<open>heappush\<close> calls made so far, oldest first.
\<close>

type_synonym puzzle_entry = "int \<times> int \<times> PuzzleState"

definition entry_key :: "puzzle_entry \<Rightarrow> int \<times> int" where
  "entry_key e = (fst e, fst (snd e))"

record solve_state =
  solver :: EightPuzzleSolver
  open_set :: "puzzle_entry list"
  counter :: int
  visited :: "int list set"
  s_pushed :: "puzzle_entry list"

text \<open>The path reconstruction of \<open>solve\<close> before the \<open>reverse\<close>: the node, its
  parent, and so on up to the state without parent.\<close>

fun parent_chain :: "PuzzleState \<Rightarrow> PuzzleState list" where
  "parent_chain (PuzzleState ts m None d) = [PuzzleState ts m None d]"
| "parent_chain (PuzzleState ts m (Some p) d) = PuzzleState ts m (Some p) d # parent_chain p"

text \<open>The \<open>for next_state in current.get_moves()\<close> loop.\<close>

fun explore :: "PuzzleState list \<Rightarrow> solve_state \<Rightarrow> py_error + solve_state" where
  "explore [] st = Inr st"
| "explore (next_state # rest) st =
     (if tiles next_state \<notin> visited st then
        (case heuristic next_state of
           Inl e \<Rightarrow> Inl e
         | Inr h \<Rightarrow>
             (let f_score = moves next_state + h in
              explore rest
                (st\<lparr>visited := insert (tiles next_state) (visited st),
                    open_set := heappush entry_key (open_set st) (f_score, counter st, next_state),
                    s_pushed := s_pushed st @ [(f_score, counter st, next_state)],
                    counter := counter st + 1\<rparr>)))
      else explore rest st)"

type_synonym solve_result = "bool \<times> PuzzleState list \<times> int"

definition solve_iter :: "solve_state \<Rightarrow> (py_error + solve_result, solve_state) loop_step" where
  "solve_iter st =
     (case open_set st of
        [] \<Rightarrow> Done (Inr (False, [], nodes_expanded (solver st)))
      | (_, _, current) # rest \<Rightarrow>
          (let sv = (solver st)\<lparr>explored := insert (tiles current) (explored (solver st)),
                                 nodes_expanded := nodes_expanded (solver st) + 1\<rparr>;
               st1 = st\<lparr>open_set := rest, solver := sv\<rparr>
           in
             (case is_goal current of
                Inl e \<Rightarrow> Done (Inl e)
              | Inr True \<Rightarrow> Done (Inr (True, rev (parent_chain current), nodes_expanded sv))
              | Inr False \<Rightarrow>
                  (case get_moves current of
                     Inl e \<Rightarrow> Done (Inl e)
                   | Inr next_states \<Rightarrow>
                       (case explore next_states st1 of
                          Inl e \<Rightarrow> Done (Inl e)
                        | Inr st2 \<Rightarrow> Next st2)))))"

partial_function (option) solve_loop :: "solve_state \<Rightarrow> (py_error + solve_result) option" where
  "solve_loop st =
     (case solve_iter st of
        Done r \<Rightarrow> Some r
      | Next st' \<Rightarrow> solve_loop st')"

declare solve_loop.simps [code]

definition solve_init :: "EightPuzzleSolver \<Rightarrow> int \<Rightarrow> solve_state" where
  "solve_init sv h0 =
     \<lparr>solver = sv,
      open_set = heappush entry_key [] (h0, 0, initial_state sv),
      counter = 1,
      visited = {tiles (initial_state sv)},
      s_pushed = [(h0, 0, initial_state sv)]\<rparr>"

text \<open>\<open>EightPuzzleSolver.solve\<close>; the early return gives the literal \<open>0\<close>.\<close>

definition solve :: "EightPuzzleSolver \<Rightarrow> (py_error + solve_result) option" where
  "solve sv =
     (case is_goal (initial_state sv) of
        Inl e \<Rightarrow> Some (Inl e)
      | Inr True \<Rightarrow> Some (Inr (True, [initial_state sv], 0))
      | Inr False \<Rightarrow>
          (case heuristic (initial_state sv) of
             Inl e \<Rightarrow> Some (Inl e)
           | Inr h0 \<Rightarrow> solve_loop (solve_init sv h0)))"


text \<open>Constructing a solver from a tile list and running \<open>solve\<close> on it, as
  \<open>main\<close> does for each example.\<close>

definition solve_tiles :: "int list \<Rightarrow> (py_error + solve_result) option" where
  "solve_tiles initial_tiles =
     (case new_solver initial_tiles of
        Inl e \<Rightarrow> Some (Inl e)
      | Inr sv \<Rightarrow> solve sv)"


section \<open>Specification vocabulary\<close>

text \<open>A walk of \<open>n\<close> steps of a successor relation.\<close>

inductive walk :: "('a \<Rightarrow> 'a \<Rightarrow> bool) \<Rightarrow> 'a \<Rightarrow> nat \<Rightarrow> 'a \<Rightarrow> bool" for R :: "'a \<Rightarrow> 'a \<Rightarrow> bool" where
  walk_refl: "walk R a 0 a"
| walk_step: "walk R a n b \<Longrightarrow> R b c \<Longrightarrow> walk R a (Suc n) c"

text \<open>The successor relation of the grid search: \<open>q\<close> is produced by \<open>neighbors\<close> and
  passes the \<open>if nbr in blocked: continue\<close> filter of \<open>astar\<close>.\<close>

definition grid_step :: "int \<Rightarrow> int \<Rightarrow> Point set \<Rightarrow> Point \<Rightarrow> Point \<Rightarrow> bool" where
  "grid_step width height blocked p q \<longleftrightarrow> q \<in> set (neighbors p width height) \<and> q \<notin> blocked"

text \<open>The successor relation of the puzzle search: \<open>s'\<close> is one of the objects that
  \<open>s.get_moves()\<close> returns.\<close>

definition move_step :: "PuzzleState \<Rightarrow> PuzzleState \<Rightarrow> bool" where
  "move_step s s' = (case get_moves s of Inl e \<Rightarrow> False | Inr next_states \<Rightarrow> s' \<in> set next_states)"

text \<open>A tile tuple that passes the check of the constructor.\<close>

definition valid_tiles :: "int list \<Rightarrow> bool" where
  "valid_tiles ts \<longleftrightarrow> length ts = 9 \<and> mset ts = mset (map int [0..<9])"

text \<open>The loop states that a run of \<open>astar\<close> goes through, each taken at the loop
  test.\<close>

inductive astar_states :: "Point \<Rightarrow> Point \<Rightarrow> int \<Rightarrow> int \<Rightarrow> Point set \<Rightarrow> astar_state \<Rightarrow> bool"
  for start goal :: Point and width height :: int and blocked :: "Point set" where
  astar_states_init: "astar_states start goal width height blocked (astar_init start goal)"
| astar_states_iter: "astar_states start goal width height blocked st \<Longrightarrow>
     astar_iter goal width height blocked st = Next st' \<Longrightarrow>
     astar_states start goal width height blocked st'"

text \<open>The loop states that a run of \<open>solve\<close> goes through, each taken at the loop
  test.\<close>

inductive solve_states :: "EightPuzzleSolver \<Rightarrow> solve_state \<Rightarrow> bool" for sv :: EightPuzzleSolver where
  solve_states_init: "is_goal (initial_state sv) = Inr False \<Longrightarrow>
     heuristic (initial_state sv) = Inr h0 \<Longrightarrow> solve_states sv (solve_init sv h0)"
| solve_states_iter: "solve_states sv st \<Longrightarrow> solve_iter st = Next st' \<Longrightarrow> solve_states sv st'"


section \<open>Auxiliary notions for the proofs\<close>

text \<open>The loop state of \<open>solve\<close> right after \<open>heappop\<close> returned \<open>current\<close> and the
  two attribute updates that follow it.\<close>

definition popped :: "solve_state \<Rightarrow> PuzzleState \<Rightarrow> puzzle_entry list \<Rightarrow> solve_state" where
  "popped st current rest =
     st\<lparr>open_set := rest,
        solver := (solver st)\<lparr>explored := insert (tiles current) (explored (solver st)),
                               nodes_expanded := nodes_expanded (solver st) + 1\<rparr>\<rparr>"

text \<open>The counters of the pushes so far increase strictly and lie below the current value
  of \<open>counter\<close>.\<close>

definition push_ordered :: "solve_state \<Rightarrow> bool" where
  "push_ordered st \<longleftrightarrow> sorted_wrt (<) (map (fst \<circ> snd) (s_pushed st)) \<and>
      (\<forall>e \<in> set (s_pushed st). fst (snd e) < counter st)"

text \<open>Every entry pushed by \<open>astar\<close> has the form \<open>(g + manhattan cell goal, g, cell)\<close>.\<close>

definition keyed_by_g :: "Point \<Rightarrow> astar_state \<Rightarrow> bool" where
  "keyed_by_g goal st \<longleftrightarrow>
     (\<forall>e \<in> set (a_pushed st). fst e = fst (snd e) + manhattan (snd (snd e)) goal)"

text \<open>The map that sends a cell to the second component of its latest push.\<close>

definition pushed_scores :: "grid_entry list \<Rightarrow> (Point \<rightharpoonup> int)" where
  "pushed_scores log = map_of (rev (map (\<lambda>e. (snd (snd e), fst (snd e))) log))"

text \<open>The order in which Python compares two entries \<open>(priority, g, (x, y))\<close>: by
  priority, then by \<open>g\<close>, then by \<open>x\<close>, then by \<open>y\<close>.\<close>

definition entry_le :: "grid_entry \<Rightarrow> grid_entry \<Rightarrow> bool" where
  "entry_le e e' \<longleftrightarrow>
     fst e < fst e' \<or>
     fst e = fst e' \<and>
       (fst (snd e) < fst (snd e') \<or>
        fst (snd e) = fst (snd e') \<and>
          (fst (snd (snd e)) < fst (snd (snd e')) \<or>
           fst (snd (snd e)) = fst (snd (snd e')) \<and> snd (snd (snd e)) \<le> snd (snd (snd e'))))"

text \<open>The g-score of every cell is the second component of its latest push, and the
  frontier is in ascending order.\<close>

definition frontier_logged :: "astar_state \<Rightarrow> bool" where
  "frontier_logged st \<longleftrightarrow>
     gscore st = pushed_scores (a_pushed st) \<and> sorted (open_heap st)"

text \<open>The cell \<open>c\<close> has the same g-score, predecessor, frontier entries and pushes in
  \<open>st'\<close> as in \<open>st\<close>.\<close>

definition untouched :: "Point \<Rightarrow> astar_state \<Rightarrow> astar_state \<Rightarrow> bool" where
  "untouched c st st' \<longleftrightarrow>
     gscore st' c = gscore st c \<and> came_from st' c = came_from st c \<and>
     filter (\<lambda>e. snd (snd e) = c) (open_heap st') = filter (\<lambda>e. snd (snd e) = c) (open_heap st) \<and>
     filter (\<lambda>e. snd (snd e) = c) (a_pushed st') = filter (\<lambda>e. snd (snd e) = c) (a_pushed st)"

text \<open>The cell \<open>c\<close> has no g-score, no predecessor, no frontier entry and was never
  pushed.\<close>

definition unscored :: "Point \<Rightarrow> astar_state \<Rightarrow> bool" where
  "unscored c st \<longleftrightarrow> gscore st c = None \<and> came_from st c = None \<and>
     c \<notin> (\<lambda>e. snd (snd e)) ` set (open_heap st) \<and> c \<notin> (\<lambda>e. snd (snd e)) ` set (a_pushed st)"

text \<open>The position of a tile in the goal tuple, the summand of \<open>heuristic\<close> for the tile
  \<open>v\<close> at position \<open>i\<close>, and the sum that \<open>heuristic\<close> computes on valid tiles.\<close>

definition goal_pos :: "int \<Rightarrow> nat" where
  "goal_pos v = (if v = 0 then 8 else nat (v - 1))"

definition tile_dist :: "nat \<Rightarrow> int \<Rightarrow> int" where
  "tile_dist i v =
     (if v = 0 then 0
      else \<bar>int (i div 3) - int (goal_pos v div 3)\<bar> + \<bar>int (i mod 3) - int (goal_pos v mod 3)\<bar>)"

definition h_tiles :: "int list \<Rightarrow> int" where
  "h_tiles ts = (\<Sum>i\<leftarrow>[0..<9]. tile_dist i (ts ! i))"

text \<open>Two positions of the board, in row-major numbering, that are next to each other in a
  row or in a column.\<close>

definition adjacent :: "nat \<Rightarrow> nat \<Rightarrow> bool" where
  "adjacent b p \<longleftrightarrow>
     (b div 3 = p div 3 \<and> (b mod 3 = Suc (p mod 3) \<or> p mod 3 = Suc (b mod 3))) \<or>
     (b mod 3 = p mod 3 \<and> (b div 3 = Suc (p div 3) \<or> p div 3 = Suc (b div 3)))"

text \<open>\<open>m\<close> is \<open>s\<close> with the blank at \<open>b\<close> exchanged with the tile at an adjacent
  position, one move later and with \<open>s\<close> as parent.\<close>

definition slid :: "PuzzleState \<Rightarrow> nat \<Rightarrow> PuzzleState \<Rightarrow> bool" where
  "slid s b m \<longleftrightarrow>
     (\<exists>p<9. adjacent b p \<and> tiles m = (tiles s)[b := tiles s ! p, p := 0] \<and>
        moves m = moves s + 1 \<and> parent m = Some s)"


text \<open>A finite set of cells that holds the start and is closed under \<open>neighbors\<close>.\<close>

definition region :: "Point \<Rightarrow> int \<Rightarrow> int \<Rightarrow> Point set" where
  "region start width height =
     {min 0 (fst start)..max (fst start) (width - 1)} \<times>
     {min 0 (snd start)..max (snd start) (height - 1)}"

text \<open>The invariant of the loop of \<open>astar\<close>: the start has g-score 0 and no predecessor;
  every scored cell lies in the region; every frontier entry is for a scored cell; g-scores
  are non-negative; every scored cell other than the start has a predecessor whose successor
  it is and whose g-score is smaller.\<close>

definition astar_inv :: "Point \<Rightarrow> int \<Rightarrow> int \<Rightarrow> Point set \<Rightarrow> astar_state \<Rightarrow> bool" where
  "astar_inv start width height blocked st \<longleftrightarrow>
     gscore st start = Some 0 \<and> came_from st start = Some None \<and>
     dom (gscore st) \<subseteq> region start width height \<and>
     (\<forall>e\<in>set (open_heap st). snd (snd e) \<in> dom (gscore st)) \<and>
     (\<forall>c g. gscore st c = Some g \<longrightarrow> 0 \<le> g) \<and>
     (\<forall>c g. gscore st c = Some g \<longrightarrow> c \<noteq> start \<longrightarrow>
        (\<exists>p gp. came_from st c = Some (Some p) \<and> grid_step width height blocked p c \<and>
           gscore st p = Some gp \<and> gp < g))"

text \<open>The quantities that decrease when \<open>astar\<close> pushes: the number of unscored cells of
  the region, then the sum of the g-scores.\<close>

definition score_measure :: "Point \<Rightarrow> int \<Rightarrow> int \<Rightarrow> astar_state \<Rightarrow> nat \<times> nat" where
  "score_measure start width height st =
     (card (region start width height - dom (gscore st)),
      (\<Sum>c\<in>dom (gscore st). nat (the (gscore st c))))"

definition relax_progress :: "Point \<Rightarrow> int \<Rightarrow> int \<Rightarrow> astar_state \<Rightarrow> astar_state \<Rightarrow> bool" where
  "relax_progress start width height st st' \<longleftrightarrow>
     (score_measure start width height st', score_measure start width height st)
        \<in> less_than <*lex*> less_than \<or>
     (score_measure start width height st' = score_measure start width height st \<and>
      open_heap st' = open_heap st)"

definition astar_measure :: "Point \<Rightarrow> int \<Rightarrow> int \<Rightarrow> astar_state \<Rightarrow> (nat \<times> nat) \<times> nat" where
  "astar_measure start width height st =
     (score_measure start width height st, length (open_heap st))"

text \<open>What \<open>astar\<close> returns: no path, or a path from the start to the goal along the
  successor relation.\<close>

definition astar_post :: "Point \<Rightarrow> Point \<Rightarrow> int \<Rightarrow> int \<Rightarrow> Point set \<Rightarrow> Point list option \<Rightarrow> bool" where
  "astar_post start goal width height blocked r =
     (case r of
        None \<Rightarrow> True
      | Some path \<Rightarrow> path \<noteq> [] \<and> hd path = start \<and> last path = goal \<and>
          successively (grid_step width height blocked) path)"

definition astar_rel :: "Point \<Rightarrow> int \<Rightarrow> int \<Rightarrow> (astar_state \<times> astar_state) set" where
  "astar_rel start width height =
     inv_image ((less_than <*lex*> less_than) <*lex*> less_than) (astar_measure start width height)"

text \<open>The parent chain of \<open>s\<close> starts at \<open>root\<close> and each state on it is a
  \<open>get_moves\<close> result of its parent.\<close>

definition good_chain :: "PuzzleState \<Rightarrow> PuzzleState \<Rightarrow> bool" where
  "good_chain root s \<longleftrightarrow>
     last (parent_chain s) = root \<and> successively (\<lambda>a b. move_step b a) (parent_chain s)"

text \<open>The invariant of the loop of \<open>solve\<close>: the visited tiles are valid, and every
  frontier entry holds a state with valid tiles and a good parent chain.\<close>

definition solve_inv :: "PuzzleState \<Rightarrow> solve_state \<Rightarrow> bool" where
  "solve_inv root st \<longleftrightarrow>
     visited st \<subseteq> {ts. valid_tiles ts} \<and>
     (\<forall>e\<in>set (open_set st).
        valid_tiles (tiles (snd (snd e))) \<and> good_chain root (snd (snd e)))"

definition solve_measure :: "solve_state \<Rightarrow> nat" where
  "solve_measure st = 2 * card ({ts. valid_tiles ts} - visited st) + length (open_set st)"

text \<open>What \<open>solve\<close> returns: \<open>(False, [], n)\<close>, or \<open>True\<close> with a path from the
  initial state along \<open>get_moves\<close> steps to a state with the goal tiles.\<close>

definition solve_post :: "PuzzleState \<Rightarrow> solve_result \<Rightarrow> bool" where
  "solve_post root r =
     (case r of (found, path, n) \<Rightarrow>
        if found then path \<noteq> [] \<and> hd path = root \<and> successively move_step path \<and>
                      tiles (last path) = goal_tiles
        else path = [])"

text \<open>A cell of the grid.\<close>

definition in_grid :: "int \<Rightarrow> int \<Rightarrow> Point \<Rightarrow> bool" where
  "in_grid width height p \<longleftrightarrow> 0 \<le> fst p \<and> fst p < width \<and> 0 \<le> snd p \<and> snd p < height"

text \<open>The number of pairs of a list that are out of order, and its parity on the tiles
  without the blank: the quantity that no move of the puzzle changes.\<close>

fun inversions :: "int list \<Rightarrow> nat" where
  "inversions [] = 0"
| "inversions (x # xs) = length (filter (\<lambda>y. y < x) xs) + inversions xs"

definition tiles_parity :: "int list \<Rightarrow> bool" where
  "tiles_parity ts = even (inversions (filter (\<lambda>v. v \<noteq> 0) ts))"

text \<open>The state reached from \<open>s\<close> by taking, at each step, the \<open>get_moves\<close> result
  with the given direction label; a means to exhibit walks.\<close>

fun follow :: "PuzzleState \<Rightarrow> string list \<Rightarrow> PuzzleState option" where
  "follow s [] = Some s"
| "follow s (d # ds) =
     (case get_moves s of
        Inl e \<Rightarrow> None
      | Inr next_states \<Rightarrow>
          (case find (\<lambda>m. move_description m = d) next_states of
             None \<Rightarrow> None
           | Some m \<Rightarrow> follow m ds))"

text \<open>A walk, as the list of its cells, from \<open>start\<close> to \<open>goal\<close> than which no walk is
  shorter.\<close>

definition shortest_walk :: "('a \<Rightarrow> 'a \<Rightarrow> bool) \<Rightarrow> 'a \<Rightarrow> 'a \<Rightarrow> 'a list \<Rightarrow> bool" where
  "shortest_walk R start goal xs \<longleftrightarrow>
     xs \<noteq> [] \<and> hd xs = start \<and> last xs = goal \<and> successively R xs \<and>
     (\<forall>n. walk R start n goal \<longrightarrow> length xs \<le> Suc n)"

text \<open>The frontier entry with which \<open>astar\<close> pushes the \<open>j\<close>-th cell of the walk
  \<open>xs\<close> when it reaches it in \<open>j\<close> steps.\<close>

definition entry_of :: "Point \<Rightarrow> Point list \<Rightarrow> nat \<Rightarrow> grid_entry" where
  "entry_of goal xs j = (int j + manhattan (xs ! j) goal, int j, xs ! j)"

text \<open>The frontier is in ascending order, and an entry \<open>(p, g, c)\<close> of it has
  \<open>p = g + manhattan c goal\<close> while the g-score of \<open>c\<close> is at most \<open>g\<close>.\<close>

definition heap_ok :: "Point \<Rightarrow> astar_state \<Rightarrow> bool" where
  "heap_ok goal st \<longleftrightarrow>
     sorted (open_heap st) \<and>
     (\<forall>e\<in>set (open_heap st).
        fst e = fst (snd e) + manhattan (snd (snd e)) goal \<and>
        (\<exists>g'. gscore st (snd (snd e)) = Some g' \<and> g' \<le> fst (snd e)))"

text \<open>A cell of the walk \<open>xs\<close> whose g-score is its position either has its entry in the
  frontier or is followed by a cell whose g-score is its position.\<close>

definition on_track :: "Point \<Rightarrow> Point list \<Rightarrow> astar_state \<Rightarrow> bool" where
  "on_track goal xs st \<longleftrightarrow>
     (\<forall>j<length xs. gscore st (xs ! j) = Some (int j) \<longrightarrow>
        entry_of goal xs j \<in> set (open_heap st) \<or>
        (Suc j < length xs \<and> gscore st (xs ! Suc j) = Some (int (Suc j))))"

text \<open>The effect of relaxing neighbours on the g-scores and the frontier: g-scores only
  decrease, the frontier only grows, and a cell with a new g-score \<open>g\<close> has the entry
  \<open>(g + manhattan c goal, g, c)\<close> in the frontier.\<close>

definition relaxed :: "Point \<Rightarrow> astar_state \<Rightarrow> astar_state \<Rightarrow> bool" where
  "relaxed goal st st' \<longleftrightarrow>
     (\<forall>c g. gscore st c = Some g \<longrightarrow> (\<exists>g'. gscore st' c = Some g' \<and> g' \<le> g)) \<and>
     set (open_heap st) \<subseteq> set (open_heap st') \<and>
     (\<forall>c g. gscore st' c = Some g \<longrightarrow>
        gscore st c = Some g \<or> (g + manhattan c goal, g, c) \<in> set (open_heap st'))"

section \<open>The constructor of the puzzle solver\<close>

lemma sort_eq_range_iff: "sort xs = map int [0..<9] \<longleftrightarrow> mset xs = mset (map int [0..<9])"
proof
  assume "sort xs = map int [0..<9]"
  then have "mset (sort xs) = mset (map int [0..<9])" by simp
  then show "mset xs = mset (map int [0..<9])" by simp
next
  assume a: "mset xs = mset (map int [0..<9])"
  have "sorted (map int [0..<9])"
    by (simp add: sorted_map strict_sorted_iff[symmetric] sorted_wrt_map)
  then show "sort xs = map int [0..<9]" using a
    by (metis properties_for_sort)
qed

lemma new_solver_valid:
  "valid_tiles ts \<Longrightarrow>
   new_solver ts = Inr \<lparr>initial_state = PuzzleState ts 0 None [],
                        goal_state = PuzzleState goal_tiles 0 None [],
                        explored = {}, nodes_expanded = 0\<rparr>"
  by (simp add: new_solver_def sort_eq_range_iff valid_tiles_def)

lemma new_solver_Inr:
  "new_solver ts = Inr sv \<Longrightarrow>
   valid_tiles ts \<and> sv = \<lparr>initial_state = PuzzleState ts 0 None [],
                        goal_state = PuzzleState goal_tiles 0 None [],
                        explored = {}, nodes_expanded = 0\<rparr>"
  by (auto simp: new_solver_def sort_eq_range_iff valid_tiles_def split: if_splits)

text \<open>
  Claim C9. The constructor raises \<open>ValueError\<close> exactly when the list does not have
  length 9 or is not a permutation of \<open>0..8\<close>; the error is the whole result, so no
  \<open>PuzzleState\<close> and no solver exists then. For every permutation of \<open>0..8\<close> of length
  9 the constructor succeeds and yields the solver whose initial state holds the given
  tiles, with no moves and no parent.
\<close>

theorem new_solver_validates:
  "(length ts \<noteq> 9 \<or> mset ts \<noteq> mset (map int [0..<9]) \<longrightarrow> new_solver ts = Inl ValueError) \<and>
   (length ts = 9 \<and> mset ts = mset (map int [0..<9]) \<longrightarrow>
      new_solver ts = Inr \<lparr>initial_state = PuzzleState ts 0 None [],
                           goal_state = PuzzleState goal_tiles 0 None [],
                           explored = {}, nodes_expanded = 0\<rparr>)"
  by (simp add: new_solver_def sort_eq_range_iff)

theorem new_solver_validates_witness:
  "new_solver [1, 2, 3] = Inl ValueError \<and>
   new_solver [1, 1, 2, 3, 4, 5, 6, 7, 8] = Inl ValueError \<and>
   new_solver [8, 7, 6, 5, 4, 3, 2, 1, 0] =
     Inr \<lparr>initial_state = PuzzleState [8, 7, 6, 5, 4, 3, 2, 1, 0] 0 None [],
          goal_state = PuzzleState goal_tiles 0 None [],
          explored = {}, nodes_expanded = 0\<rparr>"
proof -
  have a: "length [1, 2, 3 :: int] \<noteq> 9" by simp
  have b: "mset [1, 1, 2, 3, 4, 5, 6, 7, 8 :: int] \<noteq> mset (map int [0..<9])"
  proof
    assume "mset [1, 1, 2, 3, 4, 5, 6, 7, 8 :: int] = mset (map int [0..<9])"
    then have "count (mset [1, 1, 2, 3, 4, 5, 6, 7, 8 :: int]) 0 = count (mset (map int [0..<9])) 0"
      by (rule arg_cong)
    then show False
      by (simp add: upt_rec[of _ 9])
  qed
  have c: "length [8, 7, 6, 5, 4, 3, 2, 1, 0 :: int] = 9 \<and>
           mset [8, 7, 6, 5, 4, 3, 2, 1, 0 :: int] = mset (map int [0..<9])"
    by (simp add: upt_rec[of _ 9])
  show ?thesis
    using new_solver_validates [of "[1, 2, 3]"]
          new_solver_validates [of "[1, 1, 2, 3, 4, 5, 6, 7, 8]"]
          new_solver_validates [of "[8, 7, 6, 5, 4, 3, 2, 1, 0]"] a b c
    by blast
qed


section \<open>Concrete runs\<close>

text \<open>
  Claim C2, as the code has it. For the instance \<open>[1,2,3,4,5,6,7,0,8]\<close>, \<open>solve\<close>
  returns \<open>found = True\<close> and a path of two states, that is one move (the blank moved
  right, swapped with tile 8), and reports \<open>nodes_expanded = 2\<close>: the counter is
  incremented at every pop, the pop of the goal state included.
\<close>

theorem solve_one_move:
  "solve_tiles [1, 2, 3, 4, 5, 6, 7, 0, 8] =
     Some (Inr (True,
       [PuzzleState [1, 2, 3, 4, 5, 6, 7, 0, 8] 0 None [],
        PuzzleState [1, 2, 3, 4, 5, 6, 7, 8, 0] 1
          (Some (PuzzleState [1, 2, 3, 4, 5, 6, 7, 0, 8] 0 None [])) ''right''],
       2))"
  by code_simp

text \<open>Claim C2 as stated fails: the reported count is not 1.\<close>

theorem solve_one_move_not_one_expansion:
  "\<not> (\<exists>path. solve_tiles [1, 2, 3, 4, 5, 6, 7, 0, 8] = Some (Inr (True, path, 1)))"
proof -
  have "solve_tiles [1, 2, 3, 4, 5, 6, 7, 0, 8] =
     Some (Inr (True,
       [PuzzleState [1, 2, 3, 4, 5, 6, 7, 0, 8] 0 None [],
        PuzzleState [1, 2, 3, 4, 5, 6, 7, 8, 0] 1
          (Some (PuzzleState [1, 2, 3, 4, 5, 6, 7, 0, 8] 0 None [])) ''right''],
       2))"
    by code_simp
  then show ?thesis by simp
qed


section \<open>One iteration of each loop\<close>

lemma solve_iter_Next:
  assumes "solve_iter st = Next st'"
  obtains f c current rest ms where
    "open_set st = (f, c, current) # rest" "is_goal current = Inr False"
    "get_moves current = Inr ms" "explore ms (popped st current rest) = Inr st'"
  using assms unfolding solve_iter_def popped_def
  by (auto simp: Let_def split: list.splits sum.splits bool.splits)

lemma astar_iter_Next:
  assumes "astar_iter goal width height blocked st = Next st'"
  obtains p g current rest where
    "open_heap st = (p, g, current) # rest" "current \<noteq> goal"
    "relax_all goal blocked current (neighbors current width height) (st\<lparr>open_heap := rest\<rparr>) = Inr st'"
  using assms unfolding astar_iter_def
  by (auto split: list.splits sum.splits if_splits)


section \<open>Start equal to goal\<close>

lemma walk_back_start: "walk_back [s \<mapsto> None] (Some s) [] = Some (Inr [s])"
  by (simp add: walk_back.simps)

lemma astar_iter_trivial:
  "astar_iter s width height blocked (astar_init s s) = Done (Some (Inr (Some [s])))"
  by (simp add: astar_iter_def astar_init_def heappush_def walk_back_start)





section \<open>Tie-break keys of the frontier entries\<close>

lemma explore_push_ordered:
  "explore ms st = Inr st' \<Longrightarrow> push_ordered st \<Longrightarrow> push_ordered st'"
proof (induction ms arbitrary: st)
  case Nil
  then show ?case by simp
next
  case (Cons m ms)
  show ?case
  proof (cases "tiles m \<in> visited st")
    case True
    with Cons show ?thesis by simp
  next
    case False
    with Cons.prems obtain h where h: "heuristic m = Inr h"
      by (cases "heuristic m") auto
    let ?st1 = "st\<lparr>visited := insert (tiles m) (visited st),
                    open_set := heappush entry_key (open_set st) (moves m + h, counter st, m),
                    s_pushed := s_pushed st @ [(moves m + h, counter st, m)],
                    counter := counter st + 1\<rparr>"
    from Cons.prems False h have e: "explore ms ?st1 = Inr st'" by (simp add: Let_def)
    have "push_ordered ?st1" using Cons.prems(2)
      by (auto simp: push_ordered_def sorted_wrt_append)
    with Cons.IH e show ?thesis by blast
  qed
qed

lemma solve_iter_push_ordered:
  assumes "solve_iter st = Next st'" "push_ordered st"
  shows "push_ordered st'"
proof -
  from assms(1) obtain f c current rest ms where
    e: "explore ms (popped st current rest) = Inr st'"
    by (rule solve_iter_Next)
  have "push_ordered (popped st current rest)"
    using assms(2) by (simp add: push_ordered_def popped_def)
  with e show ?thesis by (rule explore_push_ordered)
qed

lemma solve_states_push_ordered: "solve_states sv st \<Longrightarrow> push_ordered st"
proof (induction rule: solve_states.induct)
  case (solve_states_init h0)
  show ?case by (simp add: solve_init_def push_ordered_def)
next
  case (solve_states_iter st st')
  then show ?case by (blast intro: solve_iter_push_ordered)
qed

lemma relax_keyed:
  "relax goal blocked current st nbr = Inr st' \<Longrightarrow> keyed_by_g goal st \<Longrightarrow> keyed_by_g goal st'"
  unfolding relax_def keyed_by_g_def
  by (auto simp: Let_def split: if_splits option.splits)

lemma relax_all_keyed:
  "relax_all goal blocked current nbrs st = Inr st' \<Longrightarrow> keyed_by_g goal st \<Longrightarrow> keyed_by_g goal st'"
proof (induction nbrs arbitrary: st)
  case Nil
  then show ?case by simp
next
  case (Cons n nbrs)
  then show ?case by (auto split: sum.splits dest: relax_keyed)
qed

lemma astar_states_keyed:
  "astar_states start goal width height blocked st \<Longrightarrow> keyed_by_g goal st"
proof (induction rule: astar_states.induct)
  case astar_states_init
  show ?case by (simp add: astar_init_def keyed_by_g_def)
next
  case (astar_states_iter st st')
  from astar_states_iter(2) obtain p g current rest where
    r: "relax_all goal blocked current (neighbors current width height) (st\<lparr>open_heap := rest\<rparr>) = Inr st'"
    by (rule astar_iter_Next)
  have "keyed_by_g goal (st\<lparr>open_heap := rest\<rparr>)"
    using astar_states_iter.IH by (simp add: keyed_by_g_def)
  with r show ?case by (rule relax_all_keyed)
qed

lemma grid_first_iter:
  "astar_iter (0, 0) 3 1 {} (astar_init (1, 0) (0, 0)) =
     Next \<lparr>open_heap = [(1, 1, (0, 0)), (3, 1, (2, 0))],
           came_from = [(1, 0) \<mapsto> None, (0, 0) \<mapsto> Some (1, 0), (2, 0) \<mapsto> Some (1, 0)],
           gscore = [(1, 0) \<mapsto> 0, (0, 0) \<mapsto> 1, (2, 0) \<mapsto> 1],
           a_pushed = [(1, 0, (1, 0)), (1, 1, (0, 0)), (3, 1, (2, 0))]\<rparr>"
  by (simp add: astar_iter_def astar_init_def heappush_def neighbors_def relax_def manhattan_def Let_def)

lemma entry_le_iff: "entry_le e e' \<longleftrightarrow> e \<le> e'"
  by (cases e; cases e') (auto simp: entry_le_def less_eq_prod_def less_prod_def)

lemma pushed_scores_snoc:
  "pushed_scores (log @ [(p, g, c)]) = (pushed_scores log)(c \<mapsto> g)"
  by (simp add: pushed_scores_def)

lemma sorted_heappush: "sorted heap \<Longrightarrow> sorted (heappush id heap e)"
  using sorted_insort_key [of id e heap] by (simp add: heappush_def)

lemma relax_logged:
  "relax goal blocked current st nbr = Inr st' \<Longrightarrow> frontier_logged st \<Longrightarrow> frontier_logged st'"
  unfolding relax_def frontier_logged_def
  by (auto simp: Let_def pushed_scores_snoc sorted_heappush split: if_splits option.splits)

lemma relax_all_logged:
  "relax_all goal blocked current nbrs st = Inr st' \<Longrightarrow> frontier_logged st \<Longrightarrow>
     frontier_logged st'"
proof (induction nbrs arbitrary: st)
  case Nil
  then show ?case by simp
next
  case (Cons n nbrs)
  then show ?case by (auto split: sum.splits dest: relax_logged)
qed

lemma astar_states_logged:
  "astar_states start goal width height blocked st \<Longrightarrow> frontier_logged st"
proof (induction rule: astar_states.induct)
  case astar_states_init
  show ?case
    by (simp add: astar_init_def frontier_logged_def pushed_scores_def heappush_def)
next
  case (astar_states_iter st st')
  from astar_states_iter(2) obtain p g current rest where
    h: "open_heap st = (p, g, current) # rest" and
    r: "relax_all goal blocked current (neighbors current width height) (st\<lparr>open_heap := rest\<rparr>) = Inr st'"
    by (rule astar_iter_Next)
  have "frontier_logged (st\<lparr>open_heap := rest\<rparr>)"
    using astar_states_iter.IH h by (simp add: frontier_logged_def)
  with r show ?case by (rule relax_all_logged)
qed

lemma grid_first_iter_ties:
  "astar_iter (1, 1) 3 2 {} (astar_init (1, 0) (1, 1)) =
     Next \<lparr>open_heap = [(1, 1, (1, 1)), (3, 1, (0, 0)), (3, 1, (2, 0))],
           came_from = [(1, 0) \<mapsto> None, (0, 0) \<mapsto> Some (1, 0), (2, 0) \<mapsto> Some (1, 0),
                        (1, 1) \<mapsto> Some (1, 0)],
           gscore = [(1, 0) \<mapsto> 0, (0, 0) \<mapsto> 1, (2, 0) \<mapsto> 1, (1, 1) \<mapsto> 1],
           a_pushed = [(1, 0, (1, 0)), (3, 1, (0, 0)), (3, 1, (2, 0)), (1, 1, (1, 1))]\<rparr>"
  by (simp add: astar_iter_def astar_init_def heappush_def neighbors_def relax_def manhattan_def Let_def)

text \<open>
  Claim C3, as the code has it. In the puzzle search the second component of the pushed
  entries is an insertion counter: along the pushes of one search, in the order in which
  they are made, it increases strictly. In the grid search the second component of a pushed
  entry is not an insertion counter but the g-score that the push records for the pushed
  cell: every pushed entry is \<open>(g + manhattan cell goal, g, cell)\<close>, and at every loop
  test the g-score of each cell is the second component of the latest push of that cell.
  The frontier is popped in ascending order of priority, then \<open>g\<close>, then the cell
  coordinates \<open>x\<close> and \<open>y\<close>, so entries that agree on the first two components are
  ordered by the cell.
\<close>

theorem tie_break_keys:
  "(solve_states sv st \<longrightarrow> sorted_wrt (<) (map (fst \<circ> snd) (s_pushed st))) \<and>
   (astar_states start goal width height blocked ast \<longrightarrow>
      (\<forall>(priority, g, cell) \<in> set (a_pushed ast). priority = g + manhattan cell goal) \<and>
      gscore ast = pushed_scores (a_pushed ast) \<and>
      sorted_wrt entry_le (open_heap ast))"
proof (intro conjI impI)
  assume "solve_states sv st"
  then have "push_ordered st" by (rule solve_states_push_ordered)
  then show "sorted_wrt (<) (map (fst \<circ> snd) (s_pushed st))" by (simp add: push_ordered_def)
next
  assume a: "astar_states start goal width height blocked ast"
  then have "keyed_by_g goal ast" by (rule astar_states_keyed)
  then show "\<forall>(priority, g, cell) \<in> set (a_pushed ast). priority = g + manhattan cell goal"
    by (auto simp: keyed_by_g_def)
  from a have l: "frontier_logged ast" by (rule astar_states_logged)
  then show "gscore ast = pushed_scores (a_pushed ast)" by (simp add: frontier_logged_def)
  have "entry_le = (\<le>)" by (intro ext) (rule entry_le_iff)
  with l show "sorted_wrt entry_le (open_heap ast)" by (simp add: frontier_logged_def)
qed

theorem tie_break_keys_witness:
  "(\<exists>st. solve_states \<lparr>initial_state = PuzzleState [1, 2, 3, 4, 5, 6, 7, 0, 8] 0 None [],
                        goal_state = PuzzleState goal_tiles 0 None [],
                        explored = {}, nodes_expanded = 0\<rparr> st \<and>
         map (fst \<circ> snd) (s_pushed st) = [0, 1, 2, 3] \<and>
         sorted_wrt (<) (map (fst \<circ> snd) (s_pushed st))) \<and>
   (\<exists>ast. astar_states (1, 0) (1, 1) 3 2 {} ast \<and>
         a_pushed ast = [(1, 0, (1, 0)), (3, 1, (0, 0)), (3, 1, (2, 0)), (1, 1, (1, 1))] \<and>
         open_heap ast = [(1, 1, (1, 1)), (3, 1, (0, 0)), (3, 1, (2, 0))] \<and>
         list_all (\<lambda>(priority, g, cell). priority = g + manhattan cell (1, 1)) (a_pushed ast) \<and>
         gscore ast = pushed_scores (a_pushed ast) \<and>
         sorted_wrt entry_le (open_heap ast))"
proof -
  let ?s0 = "PuzzleState [1, 2, 3, 4, 5, 6, 7, 0, 8] 0 None []"
  let ?sv = "\<lparr>initial_state = ?s0, goal_state = PuzzleState goal_tiles 0 None [],
              explored = {}, nodes_expanded = 0\<rparr>"
  let ?up = "PuzzleState [1, 2, 3, 4, 0, 6, 7, 5, 8] 1 (Some ?s0) ''up''"
  let ?left = "PuzzleState [1, 2, 3, 4, 5, 6, 0, 7, 8] 1 (Some ?s0) ''left''"
  let ?right = "PuzzleState [1, 2, 3, 4, 5, 6, 7, 8, 0] 1 (Some ?s0) ''right''"
  let ?st = "\<lparr>solver = ?sv\<lparr>explored := {[1, 2, 3, 4, 5, 6, 7, 0, 8]}, nodes_expanded := 1\<rparr>,
              open_set = [(1, 3, ?right), (3, 1, ?up), (3, 2, ?left)],
              counter = 4,
              visited = {[1, 2, 3, 4, 5, 6, 7, 8, 0], [1, 2, 3, 4, 5, 6, 0, 7, 8],
                         [1, 2, 3, 4, 0, 6, 7, 5, 8], [1, 2, 3, 4, 5, 6, 7, 0, 8]},
              s_pushed = [(1, 0, ?s0), (3, 1, ?up), (3, 2, ?left), (1, 3, ?right)]\<rparr>"
  let ?ast = "\<lparr>open_heap = [(1, 1, (1, 1)), (3, 1, (0, 0)), (3, 1, (2, 0))],
           came_from = [(1, 0) \<mapsto> None, (0, 0) \<mapsto> Some (1, 0), (2, 0) \<mapsto> Some (1, 0),
                        (1, 1) \<mapsto> Some (1, 0)],
           gscore = [(1, 0) \<mapsto> 0, (0, 0) \<mapsto> 1, (2, 0) \<mapsto> 1, (1, 1) \<mapsto> (1::int)],
           a_pushed = [(1, 0, (1, 0)), (3, 1, (0, 0)), (3, 1, (2, 0)), (1, 1, (1, 1))]\<rparr>"
  note t = tie_break_keys [of ?sv ?st "(1, 0)" "(1, 1)" 3 2 "{}" ?ast]
  have h: "heuristic ?s0 = Inr 1"
    by (simp add: heuristic_def goal_tiles_def upt_rec[of _ 9])
  then have g: "is_goal ?s0 = Inr False" by (simp add: is_goal_def)
  have hs: "heuristic ?up = Inr 2" "heuristic ?left = Inr 2" "heuristic ?right = Inr 0"
    by (simp_all add: heuristic_def goal_tiles_def upt_rec[of _ 9])
  have m: "get_moves ?s0 = Inr [?up, ?left, ?right]"
    by (simp add: get_moves_def directions_def)
  have "solve_iter (solve_init ?sv 1) = Next ?st"
    by (simp add: solve_iter_def solve_init_def heappush_def g m hs entry_key_def Let_def)
  with solve_states_init [of ?sv 1] g h have ps: "solve_states ?sv ?st"
    by (auto intro: solve_states_iter)
  have pa: "astar_states (1, 0) (1, 1) 3 2 {} ?ast"
    using astar_states_iter [OF astar_states_init grid_first_iter_ties] .
  from mp [OF conjunct1 [OF t] ps]
  have 1: "sorted_wrt (<) (map (fst \<circ> snd) (s_pushed ?st))" .
  from mp [OF conjunct2 [OF t] pa]
  have 2: "(\<forall>(priority, g, cell) \<in> set (a_pushed ?ast). priority = g + manhattan cell (1, 1)) \<and>
      gscore ?ast = pushed_scores (a_pushed ?ast) \<and>
      sorted_wrt entry_le (open_heap ?ast)" .
  from conjunct1 [OF 2]
  have 3: "list_all (\<lambda>(priority, g, cell). priority = g + manhattan cell (1, 1)) (a_pushed ?ast)"
    by (simp only: list_all_iff)
  have 4: "map (fst \<circ> snd) (s_pushed ?st) = [0, 1, 2, 3]" by simp
  have 5: "a_pushed ?ast = [(1, 0, (1, 0)), (3, 1, (0, 0)), (3, 1, (2, 0)), (1, 1, (1, 1))]"
    "open_heap ?ast = [(1, 1, (1, 1)), (3, 1, (0, 0)), (3, 1, (2, 0))]" by simp_all
  show ?thesis
    by (intro conjI exI [of _ ?st] exI [of _ ?ast])
       (rule ps, rule 4, rule 1, rule pa, rule 5, rule 5, rule 3,
        rule conjunct1 [OF conjunct2 [OF 2]], rule conjunct2 [OF conjunct2 [OF 2]])
qed

text \<open>Claim C3 as stated fails for the grid search: on the one-row grid of width 3 with
  start \<open>(1,0)\<close> and goal \<open>(0,0)\<close>, the two pushes of the first iteration carry the same
  second component, 1.\<close>

theorem grid_keys_repeat:
  "\<not> (\<forall>st. astar_states (1, 0) (0, 0) 3 1 {} st \<longrightarrow>
         sorted_wrt (<) (map (fst \<circ> snd) (a_pushed st)))"
proof
  assume a: "\<forall>st. astar_states (1, 0) (0, 0) 3 1 {} st \<longrightarrow>
         sorted_wrt (<) (map (fst \<circ> snd) (a_pushed st))"
  let ?st = "\<lparr>open_heap = [(1, 1, (0, 0)), (3, 1, (2, 0))],
           came_from = [(1, 0) \<mapsto> None, (0, 0) \<mapsto> Some (1, 0), (2, 0) \<mapsto> Some (1, 0)],
           gscore = [(1, 0) \<mapsto> 0, (0, 0) \<mapsto> 1, (2, 0) \<mapsto> (1::int)],
           a_pushed = [(1, 0, (1, 0)), (1, 1, (0, 0)), (3, 1, (2, 0))]\<rparr>"
  have "astar_states (1, 0) (0, 0) 3 1 {} ?st"
    using astar_states_iter [OF astar_states_init grid_first_iter] .
  with a have "sorted_wrt (<) (map (fst \<circ> snd) (a_pushed ?st))" by blast
  then show False by simp
qed

section \<open>The grid successors and the blocked cells\<close>

lemma set_neighbors_in_bounds:
  assumes "0 \<le> x" "x < width" "0 \<le> y" "y < height"
  shows "set (neighbors (x, y) width height) =
           {q \<in> {(x - 1, y), (x + 1, y), (x, y - 1), (x, y + 1)}.
              0 \<le> fst q \<and> fst q < width \<and> 0 \<le> snd q \<and> snd q < height}"
  using assms by (auto simp: neighbors_def Let_def)

lemma distinct_neighbors: "distinct (neighbors p width height)"
  by (auto simp: neighbors_def Let_def)

lemma relax_untouched:
  assumes "relax goal blocked current st nbr = Inr st'" "c \<in> blocked"
  shows "untouched c st st'"
proof (cases "nbr \<in> blocked")
  case True
  with assms show ?thesis by (simp add: relax_def untouched_def)
next
  case False
  with assms(2) have "nbr \<noteq> c" by blast
  with assms(1) False show ?thesis
    unfolding relax_def untouched_def heappush_def
    by (auto simp: Let_def filter_insort_triv split: if_splits option.splits)
qed

lemma relax_all_untouched:
  "relax_all goal blocked current nbrs st = Inr st' \<Longrightarrow> c \<in> blocked \<Longrightarrow> untouched c st st'"
proof (induction nbrs arbitrary: st)
  case Nil
  then show ?case by (simp add: untouched_def)
next
  case (Cons n nbrs)
  from Cons.prems obtain st1 where
    a: "relax goal blocked current st n = Inr st1" and
    b: "relax_all goal blocked current nbrs st1 = Inr st'"
    by (auto split: sum.splits)
  from a Cons.prems(2) have "untouched c st st1" by (rule relax_untouched)
  moreover from b Cons.prems(2) have "untouched c st1 st'" by (rule Cons.IH)
  ultimately show ?case by (simp add: untouched_def)
qed

lemma unscored_filter:
  "unscored c st \<longleftrightarrow> gscore st c = None \<and> came_from st c = None \<and>
     filter (\<lambda>e. snd (snd e) = c) (open_heap st) = [] \<and> filter (\<lambda>e. snd (snd e) = c) (a_pushed st) = []"
  by (auto simp: unscored_def filter_empty_conv)

lemma untouched_unscored: "untouched c st st' \<Longrightarrow> unscored c st \<Longrightarrow> unscored c st'"
  by (simp add: unscored_filter untouched_def)

lemma astar_states_blocked_unscored:
  "astar_states start goal width height blocked st \<Longrightarrow> c \<in> blocked \<Longrightarrow> c \<noteq> start \<Longrightarrow> unscored c st"
proof (induction rule: astar_states.induct)
  case astar_states_init
  then show ?case by (simp add: unscored_def astar_init_def heappush_def)
next
  case (astar_states_iter st st')
  from astar_states_iter(2) obtain p g current rest where
    h: "open_heap st = (p, g, current) # rest" and
    r: "relax_all goal blocked current (neighbors current width height) (st\<lparr>open_heap := rest\<rparr>) = Inr st'"
    by (rule astar_iter_Next)
  from astar_states_iter have "unscored c st" by simp
  with h have "unscored c (st\<lparr>open_heap := rest\<rparr>)" by (auto simp: unscored_def)
  with relax_all_untouched [OF r astar_states_iter.prems(1)] show ?case
    by (rule untouched_unscored)
qed

text \<open>
  Claim C8. For a cell \<open>(x, y)\<close> of the grid, the successors that \<open>astar\<close> processes
  (the cells that \<open>neighbors\<close> returns and that are not skipped by the blocked test) are
  exactly the four axis-aligned neighbours that lie within \<open>[0,width) \<times> [0,height)\<close>
  and are not blocked. The loop over the neighbours leaves the g-score, the predecessor and
  the frontier entries of every blocked cell as they were, so a blocked cell other than the
  start (which is entered before the loop, not as a neighbour) never has a g-score, a
  predecessor or a frontier entry.
\<close>

theorem grid_successors:
  "(0 \<le> x \<and> x < width \<and> 0 \<le> y \<and> y < height \<longrightarrow>
      {q. grid_step width height blocked (x, y) q} =
        {q \<in> {(x - 1, y), (x + 1, y), (x, y - 1), (x, y + 1)}.
           0 \<le> fst q \<and> fst q < width \<and> 0 \<le> snd q \<and> snd q < height \<and> q \<notin> blocked}) \<and>
   (relax_all goal blocked current (neighbors current width height) st = Inr st' \<and> c \<in> blocked \<longrightarrow>
      gscore st' c = gscore st c \<and> came_from st' c = came_from st c \<and>
      filter (\<lambda>e. snd (snd e) = c) (open_heap st') = filter (\<lambda>e. snd (snd e) = c) (open_heap st)) \<and>
   (astar_states start goal width height blocked ast \<and> c \<in> blocked \<and> c \<noteq> start \<longrightarrow>
      gscore ast c = None \<and> came_from ast c = None \<and>
      c \<notin> (\<lambda>e. snd (snd e)) ` set (open_heap ast))"
proof (intro conjI impI)
  assume "0 \<le> x \<and> x < width \<and> 0 \<le> y \<and> y < height"
  then show "{q. grid_step width height blocked (x, y) q} =
        {q \<in> {(x - 1, y), (x + 1, y), (x, y - 1), (x, y + 1)}.
           0 \<le> fst q \<and> fst q < width \<and> 0 \<le> snd q \<and> snd q < height \<and> q \<notin> blocked}"
    unfolding grid_step_def by (subst set_neighbors_in_bounds) auto
next
  assume a: "relax_all goal blocked current (neighbors current width height) st = Inr st' \<and> c \<in> blocked"
  then have u: "untouched c st st'" by (blast intro: relax_all_untouched)
  from u show "gscore st' c = gscore st c" by (simp add: untouched_def)
  from u show "came_from st' c = came_from st c" by (simp add: untouched_def)
  from u show "filter (\<lambda>e. snd (snd e) = c) (open_heap st') = filter (\<lambda>e. snd (snd e) = c) (open_heap st)"
    by (simp add: untouched_def)
next
  assume a: "astar_states start goal width height blocked ast \<and> c \<in> blocked \<and> c \<noteq> start"
  then have u: "unscored c ast" by (blast intro: astar_states_blocked_unscored)
  from u show "gscore ast c = None" by (simp add: unscored_def)
  from u show "came_from ast c = None" by (simp add: unscored_def)
  from u show "c \<notin> (\<lambda>e. snd (snd e)) ` set (open_heap ast)" by (simp add: unscored_def)
qed

theorem grid_successors_witness:
  "{q. grid_step 5 3 {(1, 0), (1, 1), (3, 1)} (0, 0) q} = {(0, 1)} \<and>
   (\<exists>st'. relax_all (4, 2) {(1, 0), (1, 1), (3, 1)} (0, 0) (neighbors (0, 0) 5 3)
            ((astar_init (0, 0) (4, 2))\<lparr>open_heap := []\<rparr>) = Inr st' \<and>
          astar_states (0, 0) (4, 2) 5 3 {(1, 0), (1, 1), (3, 1)} st' \<and>
          open_heap st' = [(6, 1, (0, 1))] \<and>
          gscore st' (1, 0) = gscore (astar_init (0, 0) (4, 2)) (1, 0) \<and>
          gscore st' (1, 0) = None \<and> came_from st' (1, 0) = None \<and>
          (1, 0) \<notin> (\<lambda>e. snd (snd e)) ` set (open_heap st'))"
proof -
  let ?B = "{(1, 0), (1, 1), (3, 1)} :: Point set"
  let ?st0 = "(astar_init (0, 0) (4, 2))\<lparr>open_heap := []\<rparr>"
  let ?st1 = "\<lparr>open_heap = [(6, 1, (0, 1))],
              came_from = [(0, 0) \<mapsto> None, (0, 1) \<mapsto> Some (0, 0)],
              gscore = [(0, 0) \<mapsto> 0, (0, 1) \<mapsto> (1::int)],
              a_pushed = [(6, 0, (0, 0)), (6, 1, (0, 1))]\<rparr>"
  have r: "relax_all (4, 2) ?B (0, 0) (neighbors (0, 0) 5 3) ?st0 = Inr ?st1"
    by (simp add: astar_init_def heappush_def neighbors_def relax_def manhattan_def Let_def)
  have "astar_iter (4, 2) 5 3 ?B (astar_init (0, 0) (4, 2)) = Next ?st1"
    by (simp add: astar_iter_def astar_init_def heappush_def neighbors_def relax_def
          manhattan_def Let_def)
  then have a: "astar_states (0, 0) (4, 2) 5 3 ?B ?st1"
    using astar_states_iter [OF astar_states_init] by blast
  have b: "(0::int) \<le> 0 \<and> (0::int) < 5 \<and> (0::int) \<le> 0 \<and> (0::int) < 3" by simp
  have c: "(1, 0) \<in> ?B" "(1, 0) \<noteq> ((0, 0) :: Point)" by simp_all
  note g = grid_successors [of 0 5 0 3 ?B "(4, 2)" "(0, 0)" ?st0 ?st1 "(1, 0)" "(0, 0)" ?st1]
  have "{q. grid_step 5 3 ?B (0, 0) q} =
          {q \<in> {(0 - 1, 0), (0 + 1, 0), (0, 0 - 1), (0, 0 + 1)}.
             0 \<le> fst q \<and> fst q < 5 \<and> 0 \<le> snd q \<and> snd q < 3 \<and> q \<notin> ?B}"
    by (rule mp [OF conjunct1 [OF g] b])
  also have "\<dots> = {(0, 1)}" by auto
  finally have s: "{q. grid_step 5 3 ?B (0, 0) q} = {(0, 1)}" .
  have "astar_states (0, 0) (4, 2) 5 3 ?B ?st1 \<and> (1, 0) \<in> ?B \<and> (1, 0) \<noteq> ((0, 0) :: Point)"
    by (intro conjI) (rule a, rule c, rule c)
  then have u: "gscore ?st1 (1, 0) = None \<and> came_from ?st1 (1, 0) = None \<and>
      (1, 0) \<notin> (\<lambda>e. snd (snd e)) ` set (open_heap ?st1)"
    by (rule mp [OF conjunct2 [OF conjunct2 [OF g]]])
  have "relax_all (4, 2) ?B (0, 0) (neighbors (0, 0) 5 3) ?st0 = Inr ?st1 \<and> (1, 0) \<in> ?B"
    by (intro conjI) (rule r, rule c)
  then have "gscore ?st1 (1, 0) = gscore ?st0 (1, 0) \<and> came_from ?st1 (1, 0) = came_from ?st0 (1, 0) \<and>
      filter (\<lambda>e. snd (snd e) = (1, 0)) (open_heap ?st1) =
      filter (\<lambda>e. snd (snd e) = (1, 0)) (open_heap ?st0)"
    by (rule mp [OF conjunct1 [OF conjunct2 [OF g]]])
  then have k: "gscore ?st1 (1, 0) = gscore (astar_init (0, 0) (4, 2)) (1, 0)" by simp
  show ?thesis
    by (intro conjI exI [of _ ?st1]) (rule s, rule r, rule a, simp, rule k, (simp add: u)+)
qed

section \<open>The heuristics\<close>

lemma manhattan_nonneg: "0 \<le> manhattan a b"
  by (simp add: manhattan_def)

lemma manhattan_self: "manhattan a a = 0"
  by (simp add: manhattan_def)

lemma manhattan_triangle: "manhattan a c \<le> manhattan a b + manhattan b c"
  by (simp add: manhattan_def)

lemma neighbors_unit: "q \<in> set (neighbors p width height) \<Longrightarrow> manhattan p q = 1"
  by (auto simp: neighbors_def manhattan_def Let_def split: if_splits)

lemma grid_walk_manhattan:
  "walk (grid_step width height blocked) a n b \<Longrightarrow> manhattan a b \<le> int n"
proof (induction rule: walk.induct)
  case (walk_refl a)
  show ?case by (simp add: manhattan_self)
next
  case (walk_step a n b c)
  from walk_step.hyps(2) have "manhattan b c = 1"
    by (auto simp: grid_step_def neighbors_unit)
  with walk_step.IH manhattan_triangle [of a c b] show ?case by simp
qed

lemma tuple_index_Some: "tuple_index xs v = Some i \<Longrightarrow> i < length xs \<and> xs ! i = v"
  by (induction xs arbitrary: i) (auto split: if_splits)

lemma tuple_index_mem: "v \<in> set xs \<Longrightarrow> \<exists>i. tuple_index xs v = Some i"
  by (induction xs) auto

lemma tuple_index_goal: "0 \<le> v \<Longrightarrow> v \<le> 8 \<Longrightarrow> tuple_index goal_tiles v = Some (goal_pos v)"
proof -
  assume "0 \<le> v" "v \<le> 8"
  then have "v = 0 \<or> v = 1 \<or> v = 2 \<or> v = 3 \<or> v = 4 \<or> v = 5 \<or> v = 6 \<or> v = 7 \<or> v = 8"
    by arith
  then show ?thesis
    by (elim disjE) (simp_all add: goal_tiles_def goal_pos_def)
qed

lemma heuristic_loop_sum:
  "\<forall>i\<in>set js. i < length ts \<and> 0 \<le> ts ! i \<and> ts ! i \<le> 8 \<Longrightarrow>
   heuristic_loop ts js acc = Inr (acc + (\<Sum>i\<leftarrow>js. tile_dist i (ts ! i)))"
proof (induction js arbitrary: acc)
  case Nil
  show ?case by simp
next
  case (Cons j js)
  then show ?case
    by (simp add: tuple_index_goal tile_dist_def)
qed

lemma valid_tiles_set: "valid_tiles ts \<Longrightarrow> set ts = {0..8}"
proof -
  assume "valid_tiles ts"
  then have "set ts = set (map int [0..<9])"
    unfolding valid_tiles_def by (blast dest: mset_eq_setD)
  also have "\<dots> = {0..8}"
    by (auto simp: upt_rec[of _ 9])
  finally show ?thesis .
qed

lemma valid_tiles_length: "valid_tiles ts \<Longrightarrow> length ts = 9"
  by (simp add: valid_tiles_def)

lemma valid_tiles_nth: "valid_tiles ts \<Longrightarrow> i < 9 \<Longrightarrow> 0 \<le> ts ! i \<and> ts ! i \<le> 8"
  using valid_tiles_set [of ts] nth_mem [of i ts] by (auto simp: valid_tiles_def)

lemma heuristic_valid: "valid_tiles (tiles s) \<Longrightarrow> heuristic s = Inr (h_tiles (tiles s))"
  unfolding heuristic_def h_tiles_def
  by (subst heuristic_loop_sum) (auto simp: valid_tiles_nth valid_tiles_length)

lemma tile_dist_nonneg: "0 \<le> tile_dist i v"
  by (simp add: tile_dist_def)

lemma h_tiles_nonneg: "0 \<le> h_tiles ts"
  unfolding h_tiles_def by (rule sum_list_nonneg) (auto simp: tile_dist_nonneg)

lemma h_tiles_goal: "h_tiles goal_tiles = 0"
  by (simp add: h_tiles_def goal_tiles_def upt_rec[of _ 9] tile_dist_def goal_pos_def)

lemma abs_diff_step: "x = y + 1 \<or> y = x + 1 \<Longrightarrow> \<bar>x - c\<bar> \<le> \<bar>y - c\<bar> + (1::int)"
  by arith

lemma tile_dist_adjacent:
  assumes "adjacent b p"
  shows "tile_dist b v \<le> tile_dist p v + 1"
proof -
  from assms consider
    (row) "int (b div 3) = int (p div 3)"
          "int (b mod 3) = int (p mod 3) + 1 \<or> int (p mod 3) = int (b mod 3) + 1"
  | (col) "int (b mod 3) = int (p mod 3)"
          "int (b div 3) = int (p div 3) + 1 \<or> int (p div 3) = int (b div 3) + 1"
    unfolding adjacent_def by auto
  then show ?thesis
  proof cases
    case row
    from abs_diff_step [OF row(2), of "int (goal_pos v mod 3)"] row(1)
    show ?thesis by (simp add: tile_dist_def)
  next
    case col
    from abs_diff_step [OF col(2), of "int (goal_pos v div 3)"] col(1)
    show ?thesis by (simp add: tile_dist_def)
  qed
qed

lemma h_tiles_slide:
  assumes "length ts = 9" "b < 9" "p < 9" "b \<noteq> p" "ts ! b = 0"
  shows "h_tiles (ts[b := ts ! p, p := 0]) = h_tiles ts + tile_dist b (ts ! p) - tile_dist p (ts ! p)"
proof -
  let ?ts' = "ts[b := ts ! p, p := 0]"
  let ?R = "{0..<9} - {b} - {p}"
  have f: "finite {0..<9::nat}" "finite ({0..<9::nat} - {b})" by simp_all
  have mem: "b \<in> {0..<9}" "p \<in> {0..<9} - {b}" using assms by auto
  have split: "sum f {0..<9} = f b + (f p + sum f ?R)" for f :: "nat \<Rightarrow> int"
  proof -
    have "sum f {0..<9} = f b + sum f ({0..<9} - {b})" by (rule sum.remove [OF f(1) mem(1)])
    also have "sum f ({0..<9} - {b}) = f p + sum f ?R" by (rule sum.remove [OF f(2) mem(2)])
    finally show ?thesis .
  qed
  have "h_tiles ?ts' = (\<Sum>i\<in>{0..<9}. tile_dist i (?ts' ! i))"
    by (simp add: h_tiles_def interv_sum_list_conv_sum_set_nat)
  also have "\<dots> = tile_dist b (?ts' ! b) + (tile_dist p (?ts' ! p) + (\<Sum>i\<in>?R. tile_dist i (?ts' ! i)))"
    by (rule split)
  also have "(\<Sum>i\<in>?R. tile_dist i (?ts' ! i)) = (\<Sum>i\<in>?R. tile_dist i (ts ! i))"
    by (rule sum.cong) auto
  also have "?ts' ! b = ts ! p" using assms by simp
  also have "?ts' ! p = 0" using assms by simp
  finally have a: "h_tiles ?ts' = tile_dist b (ts ! p) + (\<Sum>i\<in>?R. tile_dist i (ts ! i))"
    by (simp add: tile_dist_def)
  have "h_tiles ts = (\<Sum>i\<in>{0..<9}. tile_dist i (ts ! i))"
    by (simp add: h_tiles_def interv_sum_list_conv_sum_set_nat)
  also have "\<dots> = tile_dist b (ts ! b) + (tile_dist p (ts ! p) + (\<Sum>i\<in>?R. tile_dist i (ts ! i)))"
    by (rule split)
  finally have b: "h_tiles ts = tile_dist p (ts ! p) + (\<Sum>i\<in>?R. tile_dist i (ts ! i))"
    using assms by (simp add: tile_dist_def)
  from a b show ?thesis by simp
qed

lemma adjacent_neq: "adjacent b p \<Longrightarrow> b \<noteq> p"
  by (auto simp: adjacent_def)

lemma adjacent_sym: "adjacent b p \<Longrightarrow> adjacent p b"
  by (auto simp: adjacent_def)

lemma directions_cases:
  "(d, dr, dc) \<in> set directions \<Longrightarrow>
     (dr = -1 \<and> dc = 0) \<or> (dr = 1 \<and> dc = 0) \<or> (dr = 0 \<and> dc = -1) \<or> (dr = 0 \<and> dc = 1)"
  by (auto simp: directions_def)

lemma new_pos_adjacent:
  assumes "(dr = -1 \<and> dc = 0) \<or> (dr = 1 \<and> dc = 0) \<or> (dr = 0 \<and> dc = -1) \<or> (dr = 0 \<and> dc = (1::int))"
    and "0 \<le> int (b div 3) + dr" "int (b div 3) + dr < 3"
        "0 \<le> int (b mod 3) + dc" "int (b mod 3) + dc < 3"
  shows "nat ((int (b div 3) + dr) * 3 + (int (b mod 3) + dc)) < 9 \<and>
         adjacent b (nat ((int (b div 3) + dr) * 3 + (int (b mod 3) + dc)))"
proof -
  define r where "r = nat (int (b div 3) + dr)"
  define c where "c = nat (int (b mod 3) + dc)"
  have rc: "r < 3" "c < 3" "int r = int (b div 3) + dr" "int c = int (b mod 3) + dc"
    using assms by (auto simp: r_def c_def)
  have e: "nat ((int (b div 3) + dr) * 3 + (int (b mod 3) + dc)) = r * 3 + c"
    using rc by (metis nat_int of_nat_add of_nat_mult of_nat_numeral)
  have "(r * 3 + c) div 3 = r" "(r * 3 + c) mod 3 = c" using rc by simp_all
  moreover have "r * 3 + c < 9" using rc by simp
  ultimately show ?thesis unfolding e adjacent_def using assms(1) rc
    by auto
qed

lemma get_moves_loop_slid:
  assumes "length (tiles s) = 9" "b < 9" "tiles s ! b = 0"
  shows "set ds \<subseteq> set directions \<Longrightarrow> \<forall>m\<in>set acc. slid s b m \<Longrightarrow>
     \<exists>ms. get_moves_loop s b ds acc = Inr ms \<and> (\<forall>m\<in>set ms. slid s b m)"
proof (induction ds arbitrary: acc)
  case Nil
  then show ?case by simp
next
  case (Cons x ds)
  obtain d dr dc where x: "x = (d, dr, dc)" by (cases x) auto
  with Cons.prems have dir: "(d, dr, dc) \<in> set directions" by simp
  let ?row = "int (b div 3) + dr" and ?col = "int (b mod 3) + dc"
  let ?p = "nat (?row * 3 + ?col)"
  show ?case
  proof (cases "0 \<le> ?row \<and> ?row < 3 \<and> 0 \<le> ?col \<and> ?col < 3")
    case False
    with Cons show ?thesis unfolding x by (auto simp: Let_def)
  next
    case True
    with new_pos_adjacent [OF directions_cases [OF dir]]
    have p: "?p < 9" "adjacent b ?p" by auto
    let ?m = "PuzzleState ((tiles s)[b := tiles s ! ?p, ?p := tiles s ! b]) (moves s + 1) (Some s) d"
    have "slid s b ?m" unfolding slid_def using p assms by auto
    with Cons.prems have "\<forall>m\<in>set (acc @ [?m]). slid s b m" by simp
    with Cons.IH [of "acc @ [?m]"] Cons.prems(1)
    obtain ms where "get_moves_loop s b ds (acc @ [?m]) = Inr ms" "\<forall>m\<in>set ms. slid s b m"
      by auto
    with True p assms show ?thesis unfolding x by (simp add: Let_def)
  qed
qed

lemma get_moves_valid:
  assumes "valid_tiles (tiles s)"
  shows "\<exists>b ms. b < 9 \<and> tiles s ! b = 0 \<and> tuple_index (tiles s) 0 = Some b \<and>
           get_moves s = Inr ms \<and> (\<forall>m\<in>set ms. slid s b m)"
proof -
  from assms have "0 \<in> set (tiles s)" by (simp add: valid_tiles_set)
  then obtain b where b: "tuple_index (tiles s) 0 = Some b" by (blast dest: tuple_index_mem)
  then have b9: "b < 9" "tiles s ! b = 0"
    using tuple_index_Some [OF b] assms by (simp_all add: valid_tiles_length)
  from get_moves_loop_slid [OF valid_tiles_length [OF assms] b9, of directions "[]"]
  obtain ms where "get_moves_loop s b directions [] = Inr ms" "\<forall>m\<in>set ms. slid s b m"
    by auto
  with b b9 show ?thesis by (auto simp: get_moves_def)
qed

lemma slid_valid:
  assumes "valid_tiles (tiles s)" "b < 9" "tiles s ! b = 0" "slid s b m"
  shows "valid_tiles (tiles m) \<and> h_tiles (tiles s) \<le> h_tiles (tiles m) + 1"
proof -
  from assms(4) obtain p where p: "p < 9" "adjacent b p"
    "tiles m = (tiles s)[b := tiles s ! p, p := 0]" by (auto simp: slid_def)
  have len: "length (tiles s) = 9" using assms(1) by (rule valid_tiles_length)
  have "mset ((tiles s)[b := tiles s ! p, p := tiles s ! b]) = mset (tiles s)"
    using len assms(2) p(1) by (simp add: mset_swap)
  then have v: "valid_tiles (tiles m)"
    using assms(1,3) p(3) len by (simp add: valid_tiles_def)
  have "h_tiles (tiles m) = h_tiles (tiles s) + tile_dist b (tiles s ! p) - tile_dist p (tiles s ! p)"
    unfolding p(3) using len assms(2) p(1) adjacent_neq [OF p(2)] assms(3) by (rule h_tiles_slide)
  moreover have "tile_dist p (tiles s ! p) \<le> tile_dist b (tiles s ! p) + 1"
    using adjacent_sym [OF p(2)] by (rule tile_dist_adjacent)
  ultimately show ?thesis using v by simp
qed

lemma move_step_valid:
  assumes "valid_tiles (tiles s)" "move_step s m"
  shows "valid_tiles (tiles m) \<and> h_tiles (tiles s) \<le> h_tiles (tiles m) + 1"
proof -
  from get_moves_valid [OF assms(1)] obtain b ms where
    b: "b < 9" "tiles s ! b = 0" "get_moves s = Inr ms" "\<forall>m\<in>set ms. slid s b m" by blast
  with assms(2) have "slid s b m" by (simp add: move_step_def)
  with assms(1) b(1,2) show ?thesis by (rule slid_valid)
qed

lemma puzzle_walk_h:
  "walk move_step s n g \<Longrightarrow> valid_tiles (tiles s) \<Longrightarrow>
     valid_tiles (tiles g) \<and> h_tiles (tiles s) \<le> h_tiles (tiles g) + int n"
proof (induction rule: walk.induct)
  case (walk_refl a)
  then show ?case by simp
next
  case (walk_step a n b c)
  then have "valid_tiles (tiles b)" "h_tiles (tiles a) \<le> h_tiles (tiles b) + int n" by simp_all
  with move_step_valid [of b c] walk_step.hyps(2) show ?case by simp
qed

text \<open>
  Claim C5. The grid heuristic \<open>manhattan p goal\<close> is a non-negative integer, is 0 for
  \<open>p = goal\<close>, and is at most the number of steps of every walk from \<open>p\<close> to the goal
  along the successor relation, hence at most the least such number. On every state with
  valid tiles the puzzle heuristic returns (it does not raise) a non-negative integer that is
  0 when the tiles are the goal tiles and is at most the number of moves of every sequence of
  \<open>get_moves\<close> steps that leads from the state to a state with the goal tiles.
\<close>

theorem heuristic_admissible:
  "0 \<le> manhattan p goal \<and> manhattan goal goal = 0 \<and>
   (walk (grid_step width height blocked) p n goal \<longrightarrow> manhattan p goal \<le> int n) \<and>
   (valid_tiles (tiles s) \<longrightarrow>
      (\<exists>hv. heuristic s = Inr hv \<and> 0 \<le> hv \<and>
         (tiles s = goal_tiles \<longrightarrow> hv = 0) \<and>
         (\<forall>k g. walk move_step s k g \<and> tiles g = goal_tiles \<longrightarrow> hv \<le> int k)))"
proof (intro conjI impI)
  show "0 \<le> manhattan p goal" by (simp add: manhattan_def)
  show "manhattan goal goal = 0" by (simp add: manhattan_def)
next
  assume "walk (grid_step width height blocked) p n goal"
  then show "manhattan p goal \<le> int n" by (rule grid_walk_manhattan)
next
  assume v: "valid_tiles (tiles s)"
  have "h_tiles (tiles s) \<le> int k" if "walk move_step s k g \<and> tiles g = goal_tiles" for k g
  proof -
    from that have "h_tiles (tiles s) \<le> h_tiles (tiles g) + int k"
      using puzzle_walk_h [of s k g] v by blast
    with that show ?thesis by (simp add: h_tiles_goal)
  qed
  then show "\<exists>hv. heuristic s = Inr hv \<and> 0 \<le> hv \<and>
         (tiles s = goal_tiles \<longrightarrow> hv = 0) \<and>
         (\<forall>k g. walk move_step s k g \<and> tiles g = goal_tiles \<longrightarrow> hv \<le> int k)"
    using heuristic_valid [OF v] h_tiles_nonneg [of "tiles s"] h_tiles_goal by auto
qed

theorem heuristic_admissible_witness:
  "walk (grid_step 5 3 {(1, 0), (1, 1), (3, 1)}) (0, 0) 2 (0, 2) \<and>
   manhattan (0, 0) (0, 2) \<le> 2 \<and>
   walk move_step (PuzzleState [1, 2, 3, 4, 5, 6, 7, 0, 8] 0 None []) 1
     (PuzzleState [1, 2, 3, 4, 5, 6, 7, 8, 0] 1
        (Some (PuzzleState [1, 2, 3, 4, 5, 6, 7, 0, 8] 0 None [])) ''right'') \<and>
   (\<exists>hv. heuristic (PuzzleState [1, 2, 3, 4, 5, 6, 7, 0, 8] 0 None []) = Inr hv \<and>
         0 \<le> hv \<and> hv \<le> 1) \<and>
   heuristic (PuzzleState [1, 2, 3, 4, 5, 6, 7, 8, 0] 0 None []) = Inr 0"
proof -
  let ?B = "{(1, 0), (1, 1), (3, 1)} :: Point set"
  let ?s0 = "PuzzleState [1, 2, 3, 4, 5, 6, 7, 0, 8] 0 None []"
  let ?s1 = "PuzzleState [1, 2, 3, 4, 5, 6, 7, 8, 0] 1 (Some ?s0) ''right''"
  let ?g = "PuzzleState [1, 2, 3, 4, 5, 6, 7, 8, 0] 0 None []"
  have "grid_step 5 3 ?B (0, 0) (0, 1)" "grid_step 5 3 ?B (0, 1) (0, 2)"
    by (simp_all add: grid_step_def neighbors_def Let_def)
  then have gw: "walk (grid_step 5 3 ?B) (0, 0) 2 (0, 2)"
    using walk_step [OF walk_step [OF walk_refl], of "grid_step 5 3 ?B" "(0, 0)" "(0, 1)" "(0, 2)"]
    by (simp add: numeral_2_eq_2)
  have "move_step ?s0 ?s1"
    by (simp add: move_step_def get_moves_def directions_def)
  then have pw: "walk move_step ?s0 1 ?s1"
    using walk_step [OF walk_refl, of move_step ?s0 ?s1] by simp
  have v: "valid_tiles (tiles ?s0)" "valid_tiles (tiles ?g)"
    by (simp_all add: valid_tiles_def upt_rec[of _ 9])
  have t: "tiles ?s1 = goal_tiles" "tiles ?g = goal_tiles" by (simp_all add: goal_tiles_def)
  from heuristic_admissible [of "(0, 0)" "(0, 2)" 5 3 ?B 2 ?s0] gw v(1) pw t(1)
  have "manhattan (0, 0) (0, 2) \<le> 2"
    and "\<exists>hv. heuristic ?s0 = Inr hv \<and> 0 \<le> hv \<and> hv \<le> 1"
    by (simp, fastforce)
  moreover from heuristic_admissible [of "(0, 0)" "(0, 2)" 5 3 ?B 2 ?g] v(2) t(2)
  have "heuristic ?g = Inr 0" by auto
  ultimately show ?thesis using gw pw by simp
qed

section \<open>The loop of the grid search\<close>

lemma finite_region: "finite (region start width height)"
  by (simp add: region_def)

lemma start_in_region: "start \<in> region start width height"
  by (cases start) (auto simp: region_def)

lemma neighbors_in_region:
  "p \<in> region start width height \<Longrightarrow> q \<in> set (neighbors p width height) \<Longrightarrow>
   q \<in> region start width height"
  by (cases p) (auto simp: region_def neighbors_def Let_def split: if_splits)

lemma neighbors_neq: "q \<in> set (neighbors p width height) \<Longrightarrow> q \<noteq> p"
  by (cases p) (auto simp: neighbors_def Let_def split: if_splits)

lemma successively_walk:
  "successively R xs \<Longrightarrow> xs \<noteq> [] \<Longrightarrow> walk R (hd xs) (length xs - 1) (last xs)"
proof (induction xs rule: rev_induct)
  case Nil
  then show ?case by simp
next
  case (snoc x xs)
  show ?case
  proof (cases "xs = []")
    case True
    then show ?thesis by (simp add: walk_refl)
  next
    case False
    with snoc.prems have "successively R xs" "R (last xs) x"
      by (auto simp: successively_append_iff)
    with snoc.IH False have "walk R (hd xs) (length xs - 1) (last xs)" by simp
    from this \<open>R (last xs) x\<close> have "walk R (hd xs) (Suc (length xs - 1)) x" by (rule walk_step)
    with False show ?thesis by simp
  qed
qed

lemma astar_init_inv: "astar_inv start width height blocked (astar_init start goal)"
  by (simp add: astar_inv_def astar_init_def heappush_def start_in_region)

lemma relax_cases:
  assumes "gscore st current = Some gc"
  obtains (skip) "relax goal blocked current st nbr = Inr st"
  | (push) "nbr \<notin> blocked" "gscore st nbr = None \<or> gc + 1 < the (gscore st nbr)"
      "relax goal blocked current st nbr =
         Inr (st\<lparr>gscore := (gscore st)(nbr \<mapsto> gc + 1),
                 open_heap := heappush id (open_heap st) (gc + 1 + manhattan nbr goal, gc + 1, nbr),
                 a_pushed := a_pushed st @ [(gc + 1 + manhattan nbr goal, gc + 1, nbr)],
                 came_from := (came_from st)(nbr \<mapsto> Some current)\<rparr>)"
proof (cases "nbr \<in> blocked \<or> \<not> (gscore st nbr = None \<or> gc + 1 < the (gscore st nbr))")
  case True
  with assms have "relax goal blocked current st nbr = Inr st"
    by (auto simp: relax_def Let_def)
  then show ?thesis by (rule skip)
next
  case False
  with assms show ?thesis
    by (intro push) (auto simp: relax_def Let_def)
qed

lemma relax_progress_refl: "relax_progress start width height st st"
  by (simp add: relax_progress_def)

lemma relax_progress_trans:
  "relax_progress start width height st st1 \<Longrightarrow> relax_progress start width height st1 st2 \<Longrightarrow>
   relax_progress start width height st st2"
  unfolding relax_progress_def
  by (cases "score_measure start width height st"; cases "score_measure start width height st1";
      cases "score_measure start width height st2") auto

lemma push_new_measure:
  assumes "dom gs \<subseteq> R" "finite R" "nbr \<in> R" "gs nbr = None"
  shows "card (R - dom (gs(nbr \<mapsto> g))) < card (R - dom gs)"
proof -
  have "R - dom (gs(nbr \<mapsto> g)) \<subset> R - dom gs" using assms by auto
  with assms(2) show ?thesis by (simp add: psubset_card_mono)
qed

lemma push_update_measure:
  assumes "finite (dom gs)" "gs nbr = Some old" "0 \<le> g" "g < old"
  shows "(\<Sum>c\<in>dom (gs(nbr \<mapsto> g)). nat (the ((gs(nbr \<mapsto> g)) c))) < (\<Sum>c\<in>dom gs. nat (the (gs c)))"
proof -
  from assms(2) have d: "dom (gs(nbr \<mapsto> g)) = dom gs" "nbr \<in> dom gs" by auto
  have "(\<Sum>c\<in>dom gs. nat (the ((gs(nbr \<mapsto> g)) c))) =
        nat g + (\<Sum>c\<in>dom gs - {nbr}. nat (the ((gs(nbr \<mapsto> g)) c)))"
    using sum.remove [OF assms(1) d(2), of "\<lambda>c. nat (the ((gs(nbr \<mapsto> g)) c))"] by simp
  also have "(\<Sum>c\<in>dom gs - {nbr}. nat (the ((gs(nbr \<mapsto> g)) c))) = (\<Sum>c\<in>dom gs - {nbr}. nat (the (gs c)))"
    by (rule sum.cong) auto
  finally have a: "(\<Sum>c\<in>dom gs. nat (the ((gs(nbr \<mapsto> g)) c))) =
        nat g + (\<Sum>c\<in>dom gs - {nbr}. nat (the (gs c)))" .
  have b: "(\<Sum>c\<in>dom gs. nat (the (gs c))) = nat old + (\<Sum>c\<in>dom gs - {nbr}. nat (the (gs c)))"
    using sum.remove [OF assms(1) d(2), of "\<lambda>c. nat (the (gs c))"] assms(2) by simp
  from assms(3,4) have "nat g < nat old" by simp
  with a b show ?thesis unfolding d(1) by simp
qed

lemma relax_inv:
  assumes inv: "astar_inv start width height blocked st"
    and cur: "current \<in> dom (gscore st)"
    and nbr: "nbr \<in> set (neighbors current width height)"
  shows "\<exists>st'. relax goal blocked current st nbr = Inr st' \<and>
           astar_inv start width height blocked st' \<and> current \<in> dom (gscore st') \<and>
           relax_progress start width height st st'"
proof -
  from cur obtain gc where gc: "gscore st current = Some gc" by auto
  from inv have start0: "gscore st start = Some 0" and cf0: "came_from st start = Some None"
    and sub: "dom (gscore st) \<subseteq> region start width height"
    and heap: "\<forall>e\<in>set (open_heap st). snd (snd e) \<in> dom (gscore st)"
    and nonneg: "\<forall>c g. gscore st c = Some g \<longrightarrow> 0 \<le> g"
    and pred: "\<forall>c g. gscore st c = Some g \<longrightarrow> c \<noteq> start \<longrightarrow>
        (\<exists>p gp. came_from st c = Some (Some p) \<and> grid_step width height blocked p c \<and>
           gscore st p = Some gp \<and> gp < g)"
    by (simp_all add: astar_inv_def)
  from nonneg gc have gc0: "0 \<le> gc" by blast
  from sub cur nbr have nbr_reg: "nbr \<in> region start width height"
    by (blast intro: neighbors_in_region)
  have fin: "finite (dom (gscore st))" using sub finite_region by (rule finite_subset)
  from gc show ?thesis
  proof (cases rule: relax_cases [where goal = goal and blocked = blocked and nbr = nbr])
    case skip
    with inv cur show ?thesis by (auto simp: relax_progress_refl)
  next
    case push
    let ?g = "gc + 1"
    let ?st' = "st\<lparr>gscore := (gscore st)(nbr \<mapsto> ?g),
                 open_heap := heappush id (open_heap st) (?g + manhattan nbr goal, ?g, nbr),
                 a_pushed := a_pushed st @ [(?g + manhattan nbr goal, ?g, nbr)],
                 came_from := (came_from st)(nbr \<mapsto> Some current)\<rparr>"
    have nbr_start: "nbr \<noteq> start" using push(2) start0 gc0 by auto
    have nbr_cur: "nbr \<noteq> current" using nbr by (rule neighbors_neq)
    have step: "grid_step width height blocked current nbr"
      using nbr push(1) by (simp add: grid_step_def)
    have i1: "gscore ?st' start = Some 0" "came_from ?st' start = Some None"
      using nbr_start start0 cf0 by simp_all
    have i2: "dom (gscore ?st') \<subseteq> region start width height"
      using sub nbr_reg by auto
    have i3: "\<forall>e\<in>set (open_heap ?st'). snd (snd e) \<in> dom (gscore ?st')"
      using heap by (auto simp: heappush_def set_insort_key)
    have i4: "\<forall>c g. gscore ?st' c = Some g \<longrightarrow> 0 \<le> g"
      using nonneg gc0 by auto
    have i5: "\<exists>p gp. came_from ?st' c = Some (Some p) \<and> grid_step width height blocked p c \<and>
           gscore ?st' p = Some gp \<and> gp < g"
      if c: "gscore ?st' c = Some g" "c \<noteq> start" for c g
    proof (cases "c = nbr")
      case True
      with c have "g = ?g" by simp
      with True step gc nbr_cur show ?thesis by auto
    next
      case False
      with c have "gscore st c = Some g" by simp
      with pred c(2) obtain p gp where p: "came_from st c = Some (Some p)"
        "grid_step width height blocked p c" "gscore st p = Some gp" "gp < g" by blast
      show ?thesis
      proof (cases "p = nbr")
        case True
        with p(3) push(2) have "?g < gp" by simp
        with p True False show ?thesis by auto
      next
        case np: False
        with p False show ?thesis by auto
      qed
    qed
    have inv': "astar_inv start width height blocked ?st'"
      unfolding astar_inv_def using i1 i2 i3 i4 i5 by blast
    have prog: "relax_progress start width height st ?st'"
    proof (cases "gscore st nbr")
      case None
      from push_new_measure [OF sub finite_region nbr_reg None, of ?g]
      show ?thesis by (simp add: relax_progress_def score_measure_def)
    next
      case (Some old)
      with push(2) have "?g < old" by simp
      from push_update_measure [OF fin Some _ this] gc0
      have "(\<Sum>c\<in>dom ((gscore st)(nbr \<mapsto> ?g)). nat (the (((gscore st)(nbr \<mapsto> ?g)) c)))
              < (\<Sum>c\<in>dom (gscore st). nat (the (gscore st c)))" by simp
      moreover have "dom ((gscore st)(nbr \<mapsto> ?g)) = dom (gscore st)" using Some by auto
      ultimately show ?thesis
        by (simp add: relax_progress_def score_measure_def del: dom_fun_upd fun_upd_apply)
    qed
    have "current \<in> dom (gscore ?st')" using cur by simp
    with push(3) inv' prog show ?thesis by blast
  qed
qed

lemma relax_all_inv:
  assumes "astar_inv start width height blocked st" "current \<in> dom (gscore st)"
    "set nbrs \<subseteq> set (neighbors current width height)"
  shows "\<exists>st'. relax_all goal blocked current nbrs st = Inr st' \<and>
           astar_inv start width height blocked st' \<and>
           relax_progress start width height st st'"
  using assms
proof (induction nbrs arbitrary: st)
  case Nil
  then show ?case by (simp add: relax_progress_refl)
next
  case (Cons n nbrs)
  from Cons.prems have "n \<in> set (neighbors current width height)" by simp
  from relax_inv [OF Cons.prems(1,2) this, of goal] obtain st1 where
    st1: "relax goal blocked current st n = Inr st1" "astar_inv start width height blocked st1"
      "current \<in> dom (gscore st1)" "relax_progress start width height st st1" by blast
  from Cons.IH [OF st1(2,3)] Cons.prems(3) obtain st' where
    st': "relax_all goal blocked current nbrs st1 = Inr st'"
      "astar_inv start width height blocked st'" "relax_progress start width height st1 st'"
    by auto
  from st1(4) st'(3) have "relax_progress start width height st st'"
    by (rule relax_progress_trans)
  with st1(1) st'(1,2) show ?case by simp
qed

lemma walk_back_chain:
  assumes inv: "astar_inv start width height blocked st"
  shows "gscore st c = Some g \<Longrightarrow>
     \<exists>chain. walk_back (came_from st) (Some c) acc = Some (Inr (acc @ chain)) \<and>
        chain \<noteq> [] \<and> hd chain = c \<and> last chain = start \<and>
        successively (\<lambda>a b. grid_step width height blocked b a) chain"
proof (induction "nat g" arbitrary: c g acc rule: less_induct)
  case less
  show ?case
  proof (cases "c = start")
    case True
    from inv have "came_from st start = Some None" by (simp add: astar_inv_def)
    with True have "walk_back (came_from st) (Some c) acc = Some (Inr (acc @ [c]))"
      by (simp add: walk_back.simps)
    with True show ?thesis by auto
  next
    case False
    with inv less.prems obtain p gp where p: "came_from st c = Some (Some p)"
      "grid_step width height blocked p c" "gscore st p = Some gp" "gp < g"
      unfolding astar_inv_def by blast
    from inv p(3) have "0 \<le> gp" unfolding astar_inv_def by blast
    with p(4) have "nat gp < nat g" by simp
    from less.hyps [OF this p(3), of "acc @ [c]"] obtain chain where
      ch: "walk_back (came_from st) (Some p) (acc @ [c]) = Some (Inr ((acc @ [c]) @ chain))"
        "chain \<noteq> []" "hd chain = p" "last chain = start"
        "successively (\<lambda>a b. grid_step width height blocked b a) chain" by blast
    from p(1) ch(1) have "walk_back (came_from st) (Some c) acc = Some (Inr (acc @ (c # chain)))"
      by (subst walk_back.simps) simp
    moreover have "successively (\<lambda>a b. grid_step width height blocked b a) (c # chain)"
      using ch(2,3,5) p(2) by (simp add: successively_Cons)
    ultimately show ?thesis using ch(2,4) by (intro exI [of _ "c # chain"]) simp
  qed
qed

lemma wf_astar_rel: "wf (astar_rel start width height)"
  unfolding astar_rel_def by (intro wf_inv_image wf_lex_prod wf_less_than)

lemma astar_loop_total:
  "astar_inv start width height blocked st \<Longrightarrow>
   \<exists>r. astar_loop goal width height blocked st = Some (Inr r) \<and>
       astar_post start goal width height blocked r"
proof (induction st rule: wf_induct_rule [OF wf_astar_rel [of start width height]])
  case (1 st)
  note inv = "1.prems"
  show ?case
  proof (cases "open_heap st")
    case Nil
    then have "astar_iter goal width height blocked st = Done (Some (Inr None))"
      by (simp add: astar_iter_def)
    then have "astar_loop goal width height blocked st = Some (Inr None)"
      by (subst astar_loop.simps) simp
    then show ?thesis by (simp add: astar_post_def)
  next
    case (Cons e rest)
    obtain p g current where e: "e = (p, g, current)" by (cases e) auto
    from inv Cons e have cur: "current \<in> dom (gscore st)"
      unfolding astar_inv_def by auto
    show ?thesis
    proof (cases "current = goal")
      case True
      from cur obtain gc where "gscore st current = Some gc" by auto
      from walk_back_chain [OF inv this, of "[]"] obtain chain where
        ch: "walk_back (came_from st) (Some current) [] = Some (Inr chain)"
          "chain \<noteq> []" "hd chain = current" "last chain = start"
          "successively (\<lambda>a b. grid_step width height blocked b a) chain" by auto
      from Cons e True ch(1)
      have "astar_iter goal width height blocked st = Done (Some (Inr (Some (rev chain))))"
        by (simp add: astar_iter_def)
      then have "astar_loop goal width height blocked st = Some (Inr (Some (rev chain)))"
        by (subst astar_loop.simps) simp
      moreover have "astar_post start goal width height blocked (Some (rev chain))"
        using ch(2-5) True by (simp add: astar_post_def hd_rev last_rev)
      ultimately show ?thesis by blast
    next
      case False
      let ?st1 = "st\<lparr>open_heap := rest\<rparr>"
      from inv Cons have inv1: "astar_inv start width height blocked ?st1"
        by (simp add: astar_inv_def)
      from cur have cur1: "current \<in> dom (gscore ?st1)" by simp
      from relax_all_inv [OF inv1 cur1 subset_refl, of goal] obtain st' where
        st': "relax_all goal blocked current (neighbors current width height) ?st1 = Inr st'"
          "astar_inv start width height blocked st'"
          "relax_progress start width height ?st1 st'" by blast
      from Cons e False st'(1)
      have it: "astar_iter goal width height blocked st = Next st'"
        by (simp add: astar_iter_def)
      have "score_measure start width height ?st1 = score_measure start width height st"
        by (simp add: score_measure_def)
      with st'(3) Cons have "(st', st) \<in> astar_rel start width height"
        by (auto simp: astar_rel_def astar_measure_def relax_progress_def)
      from "1.IH" [OF this st'(2)] obtain r where
        "astar_loop goal width height blocked st' = Some (Inr r)"
        "astar_post start goal width height blocked r" by blast
      with it show ?thesis by (subst astar_loop.simps) simp
    qed
  qed
qed

lemma astar_total:
  "\<exists>r. astar start goal width height blocked = Some (Inr r) \<and>
       astar_post start goal width height blocked r"
  unfolding astar_def by (rule astar_loop_total [OF astar_init_inv])

lemma astar_path_walk:
  assumes "astar start goal width height blocked = Some (Inr (Some path))"
  shows "walk (grid_step width height blocked) start (length path - 1) goal"
proof -
  from astar_total [of start goal width height blocked] assms
  have "astar_post start goal width height blocked (Some path)" by auto
  then have "successively (grid_step width height blocked) path" "path \<noteq> []"
    "hd path = start" "last path = goal" by (simp_all add: astar_post_def)
  with successively_walk [of "grid_step width height blocked" path] show ?thesis by simp
qed

lemma astar_unreachable:
  assumes "\<not> (\<exists>n. walk (grid_step width height blocked) start n goal)"
  shows "astar start goal width height blocked = Some (Inr None)"
proof -
  from astar_total [of start goal width height blocked] obtain r where
    r: "astar start goal width height blocked = Some (Inr r)" by blast
  show ?thesis
  proof (cases r)
    case None
    with r show ?thesis by simp
  next
    case (Some path)
    with r assms astar_path_walk show ?thesis by blast
  qed
qed

section \<open>The loop of the puzzle search\<close>

lemma finite_valid_tiles: "finite {ts. valid_tiles ts}"
proof -
  have "{ts. valid_tiles ts} \<subseteq> {ts. set ts \<subseteq> {0..8} \<and> length ts = 9}"
    by (auto simp: valid_tiles_set valid_tiles_length)
  moreover have "finite {ts :: int list. set ts \<subseteq> {0..8} \<and> length ts = 9}"
    by (rule finite_lists_length_eq) simp
  ultimately show ?thesis by (rule finite_subset)
qed

lemma valid_tiles_distinct: "valid_tiles ts \<Longrightarrow> distinct ts"
proof -
  assume "valid_tiles ts"
  then have "mset ts = mset (map int [0..<9])" by (simp add: valid_tiles_def)
  moreover have "distinct (map int [0..<9])" by (simp add: distinct_map)
  ultimately show ?thesis by (metis mset_eq_imp_distinct_iff)
qed

lemma tile_dist_zero:
  assumes "tile_dist i v = 0" "v \<noteq> 0" "1 \<le> v" "v \<le> 8" "i < 9"
  shows "v = int i + 1"
proof -
  from assms(1,2) have "int (i div 3) = int (goal_pos v div 3)" "int (i mod 3) = int (goal_pos v mod 3)"
    by (simp_all add: tile_dist_def)
  then have "i div 3 = goal_pos v div 3" "i mod 3 = goal_pos v mod 3" by simp_all
  then have "i = goal_pos v" by (metis div_mult_mod_eq)
  with assms(2,3) show ?thesis by (simp add: goal_pos_def)
qed

lemma goal_tiles_nth: "i < 9 \<Longrightarrow> goal_tiles ! i = (if i = 8 then 0 else int i + 1)"
proof -
  assume "i < 9"
  then have "i = 0 \<or> i = 1 \<or> i = 2 \<or> i = 3 \<or> i = 4 \<or> i = 5 \<or> i = 6 \<or> i = 7 \<or> i = 8"
    by arith
  then show ?thesis by (elim disjE) (simp_all add: goal_tiles_def)
qed

lemma h_tiles_zero_goal:
  assumes v: "valid_tiles ts" and h: "h_tiles ts = 0"
  shows "ts = goal_tiles"
proof -
  have len: "length ts = 9" using v by (rule valid_tiles_length)
  have "\<forall>x\<in>set (map (\<lambda>i. tile_dist i (ts ! i)) [0..<9]). 0 \<le> x"
    by (auto simp: tile_dist_nonneg)
  with h have "\<forall>x\<in>set (map (\<lambda>i. tile_dist i (ts ! i)) [0..<9]). x = 0"
    unfolding h_tiles_def by (simp only: sum_list_nonneg_eq_0_iff)
  then have z: "tile_dist i (ts ! i) = 0" if "i < 9" for i using that by simp
  have nz: "ts ! i = int i + 1" if "i < 9" "ts ! i \<noteq> 0" for i
    using tile_dist_zero [OF z [OF that(1)] that(2)] valid_tiles_nth [OF v that(1)] that by simp
  have t8: "ts ! 8 = 0"
  proof (rule ccontr)
    assume "ts ! 8 \<noteq> 0"
    with nz [of 8] have "ts ! 8 = 9" by simp
    with valid_tiles_nth [OF v, of 8] show False by simp
  qed
  have "ts ! i = goal_tiles ! i" if "i < 9" for i
  proof (cases "i = 8")
    case True
    with t8 show ?thesis by (simp add: goal_tiles_nth)
  next
    case False
    have "ts ! i \<noteq> 0"
    proof
      assume "ts ! i = 0"
      with t8 have "ts ! i = ts ! 8" by simp
      with valid_tiles_distinct [OF v] len that have "i = 8"
        by (simp add: nth_eq_iff_index_eq)
      with False show False by simp
    qed
    with nz that False show ?thesis by (simp add: goal_tiles_nth)
  qed
  with len show ?thesis by (simp add: list_eq_iff_nth_eq goal_tiles_def)
qed

lemma is_goal_valid:
  "valid_tiles (tiles s) \<Longrightarrow> is_goal s = Inr (tiles s = goal_tiles)"
  using h_tiles_zero_goal [of "tiles s"] h_tiles_goal
  by (auto simp: is_goal_def heuristic_valid)

lemma parent_chain_Some: "parent m = Some s \<Longrightarrow> parent_chain m = m # parent_chain s"
  by (cases m) auto

lemma parent_chain_nonempty: "parent_chain s \<noteq> []"
  by (induction s rule: parent_chain.induct) auto

lemma hd_parent_chain: "hd (parent_chain s) = s"
  by (induction s rule: parent_chain.induct) auto

lemma good_chain_child:
  assumes "good_chain root s" "parent m = Some s" "move_step s m"
  shows "good_chain root m"
  using assms parent_chain_nonempty [of s]
  by (simp add: good_chain_def parent_chain_Some successively_Cons hd_parent_chain)

lemma get_moves_children:
  assumes "valid_tiles (tiles s)" "good_chain root s"
  shows "\<exists>ms. get_moves s = Inr ms \<and>
           (\<forall>m\<in>set ms. valid_tiles (tiles m) \<and> good_chain root m)"
proof -
  from get_moves_valid [OF assms(1)] obtain b ms where
    b: "b < 9" "tiles s ! b = 0" "get_moves s = Inr ms" "\<forall>m\<in>set ms. slid s b m" by blast
  have "valid_tiles (tiles m) \<and> good_chain root m" if m: "m \<in> set ms" for m
  proof -
    from b(4) m have sl: "slid s b m" by blast
    then have "parent m = Some s" by (auto simp: slid_def)
    moreover from b(3) m have "move_step s m" by (simp add: move_step_def)
    ultimately have "good_chain root m" using assms(2) by (blast intro: good_chain_child)
    with slid_valid [OF assms(1) b(1,2) sl] show ?thesis by simp
  qed
  with b(3) show ?thesis by blast
qed

lemma explore_inv:
  assumes "solve_inv root st" "\<forall>m\<in>set ms. valid_tiles (tiles m) \<and> good_chain root m"
  shows "\<exists>st'. explore ms st = Inr st' \<and> solve_inv root st' \<and>
           solve_measure st' \<le> solve_measure st \<and> solver st' = solver st"
  using assms
proof (induction ms arbitrary: st)
  case Nil
  then show ?case by simp
next
  case (Cons m ms)
  from Cons.prems(2) have m: "valid_tiles (tiles m)" "good_chain root m" by simp_all
  show ?case
  proof (cases "tiles m \<in> visited st")
    case True
    with Cons show ?thesis by simp
  next
    case False
    let ?h = "h_tiles (tiles m)"
    let ?st1 = "st\<lparr>visited := insert (tiles m) (visited st),
                    open_set := heappush entry_key (open_set st) (moves m + ?h, counter st, m),
                    s_pushed := s_pushed st @ [(moves m + ?h, counter st, m)],
                    counter := counter st + 1\<rparr>"
    from False m(1) have e: "explore (m # ms) st = explore ms ?st1"
      by (simp add: heuristic_valid Let_def)
    have inv1: "solve_inv root ?st1"
      using Cons.prems(1) m by (auto simp: solve_inv_def heappush_def set_insort_key)
    have "{ts. valid_tiles ts} - insert (tiles m) (visited st) \<subset> {ts. valid_tiles ts} - visited st"
      using False m(1) by auto
    then have "card ({ts. valid_tiles ts} - insert (tiles m) (visited st))
                 < card ({ts. valid_tiles ts} - visited st)"
      using finite_valid_tiles by (simp add: psubset_card_mono)
    then have m1: "solve_measure ?st1 \<le> solve_measure st"
      by (simp add: solve_measure_def heappush_def)
    from Cons.IH [OF inv1] Cons.prems(2) obtain st' where
      "explore ms ?st1 = Inr st'" "solve_inv root st'"
      "solve_measure st' \<le> solve_measure ?st1" "solver st' = solver ?st1" by auto
    with e m1 show ?thesis by auto
  qed
qed

lemma solve_loop_total:
  "solve_inv root st \<Longrightarrow> \<exists>r. solve_loop st = Some (Inr r) \<and> solve_post root r"
proof (induction "solve_measure st" arbitrary: st rule: less_induct)
  case less
  note inv = less.prems
  show ?case
  proof (cases "open_set st")
    case Nil
    then have "solve_iter st = Done (Inr (False, [], nodes_expanded (solver st)))"
      by (simp add: solve_iter_def)
    then have "solve_loop st = Some (Inr (False, [], nodes_expanded (solver st)))"
      by (subst solve_loop.simps) simp
    then show ?thesis by (simp add: solve_post_def)
  next
    case (Cons e rest)
    obtain f c current where e: "e = (f, c, current)" by (cases e) auto
    from inv Cons e have cur: "valid_tiles (tiles current)" "good_chain root current"
      by (auto simp: solve_inv_def)
    let ?st1 = "popped st current rest"
    show ?thesis
    proof (cases "tiles current = goal_tiles")
      case True
      with cur(1) have "is_goal current = Inr True" by (simp add: is_goal_valid)
      with Cons e have "solve_iter st =
          Done (Inr (True, rev (parent_chain current), nodes_expanded (solver st) + 1))"
        by (simp add: solve_iter_def Let_def)
      then have "solve_loop st =
          Some (Inr (True, rev (parent_chain current), nodes_expanded (solver st) + 1))"
        by (subst solve_loop.simps) simp
      moreover have "solve_post root (True, rev (parent_chain current), nodes_expanded (solver st) + 1)"
        using cur(2) True parent_chain_nonempty [of current]
        by (simp add: solve_post_def good_chain_def hd_rev last_rev hd_parent_chain)
      ultimately show ?thesis by blast
    next
      case False
      with cur(1) have g: "is_goal current = Inr False" by (simp add: is_goal_valid)
      from get_moves_children [OF cur] obtain ms where
        ms: "get_moves current = Inr ms"
          "\<forall>m\<in>set ms. valid_tiles (tiles m) \<and> good_chain root m" by blast
      from inv Cons have inv1: "solve_inv root ?st1"
        by (auto simp: solve_inv_def popped_def)
      from explore_inv [OF inv1 ms(2)] obtain st' where
        st': "explore ms ?st1 = Inr st'" "solve_inv root st'"
          "solve_measure st' \<le> solve_measure ?st1" by blast
      from Cons e g ms(1) st'(1) have it: "solve_iter st = Next st'"
        by (simp add: solve_iter_def Let_def popped_def)
      from Cons have "solve_measure ?st1 < solve_measure st"
        by (simp add: solve_measure_def popped_def)
      with st'(3) have "solve_measure st' < solve_measure st" by simp
      from less.hyps [OF this st'(2)] obtain r where
        "solve_loop st' = Some (Inr r)" "solve_post root r" by blast
      with it show ?thesis by (subst solve_loop.simps) simp
    qed
  qed
qed

lemma solve_total:
  assumes "new_solver ts = Inr sv"
  shows "\<exists>r. solve sv = Some (Inr r) \<and> solve_post (initial_state sv) r"
proof -
  from new_solver_Inr [OF assms] have v: "valid_tiles ts"
    and i: "initial_state sv = PuzzleState ts 0 None []" by simp_all
  from v i have vi: "valid_tiles (tiles (initial_state sv))" by simp
  show ?thesis
  proof (cases "tiles (initial_state sv) = goal_tiles")
    case True
    with vi have "solve sv = Some (Inr (True, [initial_state sv], 0))"
      by (simp add: solve_def is_goal_valid)
    with True show ?thesis by (simp add: solve_post_def)
  next
    case False
    let ?h0 = "h_tiles (tiles (initial_state sv))"
    from False vi have "solve sv = solve_loop (solve_init sv ?h0)"
      by (simp add: solve_def is_goal_valid heuristic_valid)
    moreover have "solve_inv (initial_state sv) (solve_init sv ?h0)"
      using vi i by (simp add: solve_inv_def solve_init_def heappush_def good_chain_def)
    ultimately show ?thesis using solve_loop_total by simp
  qed
qed

section \<open>The parity of a tile arrangement\<close>

lemma inversions_swap:
  "x \<noteq> y \<Longrightarrow> even (inversions (A @ x # y # B)) \<longleftrightarrow> \<not> even (inversions (A @ y # x # B))"
proof (induction A)
  case Nil
  then show ?case by auto
next
  case (Cons a A)
  then show ?case by simp
qed

lemma inversions_rotate:
  assumes "x \<noteq> v" "y \<noteq> v"
  shows "even (inversions (A @ x # y # v # B)) \<longleftrightarrow> even (inversions (A @ v # x # y # B))"
proof -
  have "even (inversions (A @ x # y # v # B)) \<longleftrightarrow> even (inversions ((A @ [x]) @ y # v # B))"
    by simp
  also have "\<dots> \<longleftrightarrow> \<not> even (inversions ((A @ [x]) @ v # y # B))"
    using assms(2) by (rule inversions_swap)
  also have "\<dots> \<longleftrightarrow> \<not> even (inversions (A @ x # v # y # B))" by simp
  also have "\<dots> \<longleftrightarrow> even (inversions (A @ v # x # y # B))"
    using inversions_swap [OF assms(1), of A "y # B"] by simp
  finally show ?thesis .
qed

lemma split_at2:
  assumes "Suc i < length ts"
  shows "ts = take i ts @ ts ! i # ts ! Suc i # drop (i + 2) ts"
proof -
  have "drop i ts = ts ! i # ts ! Suc i # drop (i + 2) ts"
    using assms by (simp add: Cons_nth_drop_Suc)
  then show ?thesis by (metis append_take_drop_id)
qed

lemma split_at4:
  assumes "i + 3 < length ts"
  shows "ts = take i ts @ ts ! i # ts ! (i + 1) # ts ! (i + 2) # ts ! (i + 3) # drop (i + 4) ts"
proof -
  have "drop (i + 3) ts = ts ! (i + 3) # drop (i + 4) ts"
    using assms Cons_nth_drop_Suc [of "i + 3" ts] by (simp add: numeral_eq_Suc)
  moreover have "drop (i + 2) ts = ts ! (i + 2) # drop (i + 3) ts"
    using assms Cons_nth_drop_Suc [of "i + 2" ts] by (simp add: numeral_eq_Suc)
  moreover have "drop (i + 1) ts = ts ! (i + 1) # drop (i + 2) ts"
    using assms Cons_nth_drop_Suc [of "i + 1" ts] by (simp add: numeral_eq_Suc)
  moreover have "drop i ts = ts ! i # drop (i + 1) ts"
    using assms Cons_nth_drop_Suc [of i ts] by simp
  ultimately have "drop i ts = ts ! i # ts ! (i + 1) # ts ! (i + 2) # ts ! (i + 3) # drop (i + 4) ts"
    by simp
  then show ?thesis by (metis append_take_drop_id)
qed

lemma update2_split:
  assumes "Suc i < length ts"
  shows "ts[i := a, Suc i := b] = take i ts @ a # b # drop (i + 2) ts"
proof -
  let ?A = "take i ts" and ?B = "drop (i + 2) ts"
  have len: "length ?A = i" using assms by simp
  have "ts[i := a, Suc i := b] = (?A @ ts ! i # ts ! Suc i # ?B)[i := a, Suc i := b]"
    using split_at2 [OF assms] by simp
  also have "\<dots> = ?A @ a # b # ?B"
    using len by (simp add: list_update_append)
  finally show ?thesis .
qed

lemma update4_split:
  assumes "i + 3 < length ts"
  shows "ts[i := a, i + 3 := b] =
           take i ts @ a # ts ! (i + 1) # ts ! (i + 2) # b # drop (i + 4) ts"
proof -
  let ?A = "take i ts" and ?B = "drop (i + 4) ts"
  have len: "length ?A = i" using assms by simp
  have "ts[i := a, i + 3 := b] =
        (?A @ ts ! i # ts ! (i + 1) # ts ! (i + 2) # ts ! (i + 3) # ?B)[i := a, i + 3 := b]"
    using split_at4 [OF assms] by simp
  also have "\<dots> = ?A @ a # ts ! (i + 1) # ts ! (i + 2) # b # ?B"
    using len by (simp add: list_update_append numeral_eq_Suc)
  finally show ?thesis .
qed

lemma adjacent_cases:
  assumes "adjacent b p"
  shows "p = Suc b \<or> b = Suc p \<or> p = b + 3 \<or> b = p + 3"
proof -
  define bq br pq pr where "bq = b div 3" and "br = b mod 3" and "pq = p div 3" and "pr = p mod 3"
  have e: "b = 3 * bq + br" "p = 3 * pq + pr" by (simp_all add: bq_def br_def pq_def pr_def)
  from assms have "(bq = pq \<and> (br = Suc pr \<or> pr = Suc br)) \<or> (br = pr \<and> (bq = Suc pq \<or> pq = Suc bq))"
    by (simp add: adjacent_def bq_def br_def pq_def pr_def)
  with e show ?thesis by auto
qed

lemma valid_tiles_nth_neq:
  assumes "valid_tiles ts" "i < 9" "j < 9" "i \<noteq> j"
  shows "ts ! i \<noteq> ts ! j"
  using valid_tiles_distinct [OF assms(1)] valid_tiles_length [OF assms(1)] assms(2-4)
  by (simp add: nth_eq_iff_index_eq)

lemma slide_parity:
  assumes v: "valid_tiles ts" and b: "b < 9" and p: "p < 9" and adj: "adjacent b p"
    and blank: "ts ! b = 0"
  shows "tiles_parity (ts[b := ts ! p, p := 0]) = tiles_parity ts"
proof -
  have len: "length ts = 9" using v by (rule valid_tiles_length)
  have nz: "ts ! j \<noteq> 0" if "j < 9" "j \<noteq> b" for j
    using valid_tiles_nth_neq [OF v that(1) b that(2)] blank by simp
  from adjacent_cases [OF adj] consider
    (right) "p = Suc b" | (left) "b = Suc p" | (down) "p = b + 3" | (up) "b = p + 3" by blast
  then show ?thesis
  proof cases
    case right
    with p len have s: "Suc b < length ts" by simp
    have e: "ts = take b ts @ 0 # ts ! p # drop (b + 2) ts"
      using split_at2 [OF s] blank right by simp
    have f: "filter (\<lambda>v. v \<noteq> 0) ts =
        filter (\<lambda>v. v \<noteq> 0) (take b ts @ 0 # ts ! p # drop (b + 2) ts)"
      by (rule arg_cong [OF e])
    have "ts[b := ts ! p, p := 0] = take b ts @ ts ! p # 0 # drop (b + 2) ts"
      unfolding right by (rule update2_split [OF s])
    then have "filter (\<lambda>v. v \<noteq> 0) (ts[b := ts ! p, p := 0]) = filter (\<lambda>v. v \<noteq> 0) ts"
      unfolding f by simp
    then show ?thesis by (simp add: tiles_parity_def)
  next
    case left
    with b len have s: "Suc p < length ts" by simp
    have e: "ts = take p ts @ ts ! p # 0 # drop (p + 2) ts"
      using split_at2 [OF s] blank left by simp
    have f: "filter (\<lambda>v. v \<noteq> 0) ts =
        filter (\<lambda>v. v \<noteq> 0) (take p ts @ ts ! p # 0 # drop (p + 2) ts)"
      by (rule arg_cong [OF e])
    have "ts[b := ts ! p, p := 0] = ts[p := 0, Suc p := ts ! p]"
      unfolding left by (simp add: list_update_swap)
    then have "ts[b := ts ! p, p := 0] = take p ts @ 0 # ts ! p # drop (p + 2) ts"
      by (simp only: update2_split [OF s])
    then have "filter (\<lambda>v. v \<noteq> 0) (ts[b := ts ! p, p := 0]) = filter (\<lambda>v. v \<noteq> 0) ts"
      unfolding f by simp
    then show ?thesis by (simp add: tiles_parity_def)
  next
    case down
    with p len have s: "b + 3 < length ts" by simp
    let ?A = "filter (\<lambda>v. v \<noteq> 0) (take b ts)" and ?B = "filter (\<lambda>v. v \<noteq> 0) (drop (b + 4) ts)"
    let ?x = "ts ! (b + 1)" and ?y = "ts ! (b + 2)" and ?v = "ts ! (b + 3)"
    have n: "?x \<noteq> 0" "?y \<noteq> 0" "?v \<noteq> 0" using nz p down by simp_all
    have d: "?x \<noteq> ?v" "?y \<noteq> ?v"
      using valid_tiles_nth_neq [OF v, of "b + 1" "b + 3"]
            valid_tiles_nth_neq [OF v, of "b + 2" "b + 3"] p down by simp_all
    have e: "ts = take b ts @ 0 # ?x # ?y # ?v # drop (b + 4) ts"
      using split_at4 [OF s] blank by simp
    have "filter (\<lambda>v. v \<noteq> 0) ts =
        filter (\<lambda>v. v \<noteq> 0) (take b ts @ 0 # ?x # ?y # ?v # drop (b + 4) ts)"
      by (rule arg_cong [OF e])
    then have f: "filter (\<lambda>v. v \<noteq> 0) ts = ?A @ ?x # ?y # ?v # ?B"
      using n by simp
    have "ts[b := ts ! p, p := 0] = take b ts @ ?v # ?x # ?y # 0 # drop (b + 4) ts"
      unfolding down by (rule update4_split [OF s])
    then have f': "filter (\<lambda>v. v \<noteq> 0) (ts[b := ts ! p, p := 0]) = ?A @ ?v # ?x # ?y # ?B"
      using n by simp
    show ?thesis unfolding tiles_parity_def f f' using inversions_rotate [OF d] by simp
  next
    case up
    with b len have s: "p + 3 < length ts" by simp
    let ?A = "filter (\<lambda>v. v \<noteq> 0) (take p ts)" and ?B = "filter (\<lambda>v. v \<noteq> 0) (drop (p + 4) ts)"
    let ?x = "ts ! (p + 1)" and ?y = "ts ! (p + 2)" and ?v = "ts ! p"
    have n: "?x \<noteq> 0" "?y \<noteq> 0" "?v \<noteq> 0" using nz b up by simp_all
    have d: "?x \<noteq> ?v" "?y \<noteq> ?v"
      using valid_tiles_nth_neq [OF v, of "p + 1" p]
            valid_tiles_nth_neq [OF v, of "p + 2" p] b up by simp_all
    have e: "ts = take p ts @ ?v # ?x # ?y # 0 # drop (p + 4) ts"
      using split_at4 [OF s] blank up by simp
    have "filter (\<lambda>v. v \<noteq> 0) ts =
        filter (\<lambda>v. v \<noteq> 0) (take p ts @ ?v # ?x # ?y # 0 # drop (p + 4) ts)"
      by (rule arg_cong [OF e])
    then have f: "filter (\<lambda>v. v \<noteq> 0) ts = ?A @ ?v # ?x # ?y # ?B"
      using n by simp
    have "ts[b := ts ! p, p := 0] = ts[p := 0, p + 3 := ts ! p]"
      unfolding up by (simp add: list_update_swap)
    then have "ts[b := ts ! p, p := 0] = take p ts @ 0 # ?x # ?y # ?v # drop (p + 4) ts"
      by (simp only: update4_split [OF s])
    then have f': "filter (\<lambda>v. v \<noteq> 0) (ts[b := ts ! p, p := 0]) = ?A @ ?x # ?y # ?v # ?B"
      using n by simp
    show ?thesis unfolding tiles_parity_def f f' using inversions_rotate [OF d] by simp
  qed
qed

lemma move_step_parity:
  assumes "valid_tiles (tiles s)" "move_step s m"
  shows "tiles_parity (tiles m) = tiles_parity (tiles s)"
proof -
  from get_moves_valid [OF assms(1)] obtain b ms where
    b: "b < 9" "tiles s ! b = 0" "get_moves s = Inr ms" "\<forall>m\<in>set ms. slid s b m" by blast
  with assms(2) have "slid s b m" by (simp add: move_step_def)
  then obtain p where "p < 9" "adjacent b p" "tiles m = (tiles s)[b := tiles s ! p, p := 0]"
    by (auto simp: slid_def)
  with slide_parity [OF assms(1) b(1) _ _ b(2), of p] show ?thesis by simp
qed

lemma walk_parity:
  "walk move_step s n g \<Longrightarrow> valid_tiles (tiles s) \<Longrightarrow>
     tiles_parity (tiles g) = tiles_parity (tiles s)"
proof (induction rule: walk.induct)
  case (walk_refl a)
  show ?case by simp
next
  case (walk_step a n b c)
  from puzzle_walk_h [OF walk_step.hyps(1) walk_step.prems] have "valid_tiles (tiles b)" by simp
  with walk_step show ?case by (simp add: move_step_parity)
qed

lemma tiles_parity_goal: "tiles_parity goal_tiles"
  by (simp add: tiles_parity_def goal_tiles_def)

lemma odd_parity_unsolvable:
  assumes "valid_tiles (tiles s)" "\<not> tiles_parity (tiles s)"
  shows "\<not> (\<exists>n g. walk move_step s n g \<and> tiles g = goal_tiles)"
proof
  assume "\<exists>n g. walk move_step s n g \<and> tiles g = goal_tiles"
  then obtain n g where "walk move_step s n g" "tiles g = goal_tiles" by blast
  with walk_parity [OF _ assms(1), of n g] have "tiles_parity (tiles s) = tiles_parity goal_tiles"
    by simp
  with assms(2) tiles_parity_goal show False by simp
qed

section \<open>Results of the searches\<close>

lemma neighbors_in_grid:
  "in_grid width height p \<Longrightarrow> q \<in> set (neighbors p width height) \<Longrightarrow> in_grid width height q"
  by (cases p) (auto simp: in_grid_def neighbors_def Let_def split: if_splits)

lemma successively_all:
  assumes "successively R xs" "xs \<noteq> []" "P (hd xs)" "\<And>a b. P a \<Longrightarrow> R a b \<Longrightarrow> P b"
  shows "\<forall>x\<in>set xs. P x"
  using assms(1-3)
proof (induction xs rule: rev_induct)
  case Nil
  then show ?case by simp
next
  case (snoc x xs)
  show ?case
  proof (cases "xs = []")
    case True
    with snoc.prems show ?thesis by simp
  next
    case False
    with snoc.prems have s: "successively R xs" "R (last xs) x" "P (hd xs)"
      by (auto simp: successively_append_iff)
    with snoc.IH False have a: "\<forall>y\<in>set xs. P y" by simp
    with False have "P (last xs)" by simp
    from this s(2) have "P x" by (rule assms(4))
    with a show ?thesis by simp
  qed
qed

lemma walk_closed:
  assumes "walk R a n b" "a \<in> S" "\<And>x y. x \<in> S \<Longrightarrow> R x y \<Longrightarrow> y \<in> S"
  shows "b \<in> S"
  using assms(1,2)
proof (induction rule: walk.induct)
  case (walk_refl a)
  then show ?case by simp
next
  case (walk_step a n b c)
  then show ?case by (blast intro: assms(3))
qed

lemma blocked_goal_unreachable:
  assumes "goal \<in> blocked" "start \<noteq> goal"
  shows "\<not> (\<exists>n. walk (grid_step width height blocked) start n goal)"
proof
  assume "\<exists>n. walk (grid_step width height blocked) start n goal"
  then obtain n where "walk (grid_step width height blocked) start n goal" by blast
  then show False using assms
    by (cases rule: walk.cases) (auto simp: grid_step_def)
qed

text \<open>
  Claim C6, as the code has it. When \<open>astar\<close> returns a path, every cell of the path after
  the first is a successor of the cell before it: it is returned by \<open>neighbors\<close> for that
  cell, is not blocked, and is at Manhattan distance 1 from it. \<open>astar\<close> does not check
  that the start is a cell of the grid, and \<open>neighbors\<close> tests only the bound towards which
  it steps; so the cells of the path are cells of the grid when the start is one, and not
  in general. When \<open>solve\<close>, on a solver built by the constructor, returns a path, every
  state of the path after the first is one of the states that \<open>get_moves\<close> returns for the
  state before it.
\<close>

theorem path_contiguous:
  "(astar start goal width height blocked = Some (Inr (Some path)) \<longrightarrow>
      successively (grid_step width height blocked) path \<and>
      successively (\<lambda>p q. manhattan p q = 1) path \<and>
      (in_grid width height start \<longrightarrow> (\<forall>q\<in>set path. in_grid width height q))) \<and>
   (new_solver ts = Inr sv \<and> solve sv = Some (Inr (found, states, n)) \<longrightarrow>
      successively move_step states)"
proof (intro conjI impI)
  assume a: "astar start goal width height blocked = Some (Inr (Some path))"
  with astar_total [of start goal width height blocked]
  have "astar_post start goal width height blocked (Some path)" by auto
  then have p: "successively (grid_step width height blocked) path" "path \<noteq> []"
    "hd path = start" by (simp_all add: astar_post_def)
  then show "successively (grid_step width height blocked) path" by simp
  from p(1) show "successively (\<lambda>p q. manhattan p q = 1) path"
    by (rule successively_mono) (auto simp: grid_step_def neighbors_unit)
  assume "in_grid width height start"
  with p show "\<forall>q\<in>set path. in_grid width height q"
    by (intro successively_all [where R = "grid_step width height blocked"])
       (auto simp: grid_step_def intro: neighbors_in_grid)
next
  assume a: "new_solver ts = Inr sv \<and> solve sv = Some (Inr (found, states, n))"
  with solve_total [of ts sv] have "solve_post (initial_state sv) (found, states, n)" by auto
  then show "successively move_step states"
    by (cases found) (simp_all add: solve_post_def)
qed

theorem path_contiguous_witness:
  "astar (0, 0) (4, 2) 5 3 {(1, 0), (1, 1), (3, 1)} =
     Some (Inr (Some [(0, 0), (0, 1), (0, 2), (1, 2), (2, 2), (3, 2), (4, 2)])) \<and>
   successively (grid_step 5 3 {(1, 0), (1, 1), (3, 1)})
     [(0, 0), (0, 1), (0, 2), (1, 2), (2, 2), (3, 2), (4, 2)] \<and>
   successively (\<lambda>p q. manhattan p q = 1)
     [(0, 0), (0, 1), (0, 2), (1, 2), (2, 2), (3, 2), (4, 2)] \<and>
   list_all (in_grid 5 3) [(0, 0), (0, 1), (0, 2), (1, 2), (2, 2), (3, 2), (4, 2)] \<and>
   solve_tiles [1, 2, 3, 4, 5, 6, 7, 0, 8] =
     Some (Inr (True,
       [PuzzleState [1, 2, 3, 4, 5, 6, 7, 0, 8] 0 None [],
        PuzzleState [1, 2, 3, 4, 5, 6, 7, 8, 0] 1
          (Some (PuzzleState [1, 2, 3, 4, 5, 6, 7, 0, 8] 0 None [])) ''right''], 2)) \<and>
   successively move_step
       [PuzzleState [1, 2, 3, 4, 5, 6, 7, 0, 8] 0 None [],
        PuzzleState [1, 2, 3, 4, 5, 6, 7, 8, 0] 1
          (Some (PuzzleState [1, 2, 3, 4, 5, 6, 7, 0, 8] 0 None [])) ''right'']"
proof -
  let ?B = "{(1, 0), (1, 1), (3, 1)} :: Point set"
  let ?P = "[(0, 0), (0, 1), (0, 2), (1, 2), (2, 2), (3, 2), (4, 2)] :: Point list"
  let ?T = "[1, 2, 3, 4, 5, 6, 7, 0, 8] :: int list"
  let ?s0 = "PuzzleState ?T 0 None []"
  let ?s1 = "PuzzleState [1, 2, 3, 4, 5, 6, 7, 8, 0] 1 (Some ?s0) ''right''"
  let ?sv = "\<lparr>initial_state = ?s0, goal_state = PuzzleState goal_tiles 0 None [],
              explored = {}, nodes_expanded = 0\<rparr>"
  note t = path_contiguous [of "(0, 0)" "(4, 2)" 5 3 ?B ?P ?T ?sv True "[?s0, ?s1]" 2]
  have a: "astar (0, 0) (4, 2) 5 3 ?B = Some (Inr (Some ?P))" by code_simp
  have g: "in_grid 5 3 (0, 0)" by (simp add: in_grid_def)
  have "valid_tiles ?T" by (simp add: valid_tiles_def upt_rec[of _ 9])
  then have n: "new_solver ?T = Inr ?sv" by (rule new_solver_valid)
  have st: "solve_tiles ?T = Some (Inr (True, [?s0, ?s1], 2))" by code_simp
  with n have s: "solve ?sv = Some (Inr (True, [?s0, ?s1], 2))" by (simp add: solve_tiles_def)
  note c = mp [OF conjunct1 [OF t] a]
  from conjunct1 [OF c] have 1: "successively (grid_step 5 3 ?B) ?P" .
  from conjunct1 [OF conjunct2 [OF c]]
  have 0: "successively (\<lambda>p q. manhattan p q = 1) ?P" .
  from conjunct2 [OF conjunct2 [OF c]]
  have 2: "in_grid 5 3 (0, 0) \<longrightarrow> (\<forall>q\<in>set ?P. in_grid 5 3 q)" .
  from mp [OF 2 g] have "\<forall>q\<in>set ?P. in_grid 5 3 q" .
  then have 3: "list_all (in_grid 5 3) ?P" by (simp only: list_all_iff)
  from mp [OF conjunct2 [OF t] conjI [OF n s]]
  have 4: "successively move_step [?s0, ?s1]" .
  from a 1 0 3 st 4 show ?thesis by (intro conjI)
qed

text \<open>Claim C6 as stated fails for the grid search: on the one-row grid of width 3, from the
  start \<open>(5,0)\<close>, which is not a cell of the grid, to the goal \<open>(0,0)\<close>, \<open>astar\<close>
  returns a path whose second cell \<open>(4,0)\<close> is a successor of the first but lies outside
  the grid.\<close>

theorem path_leaves_grid:
  "astar (5, 0) (0, 0) 3 1 {} =
     Some (Inr (Some [(5, 0), (4, 0), (3, 0), (2, 0), (1, 0), (0, 0)])) \<and>
   grid_step 3 1 {} (5, 0) (4, 0) \<and>
   \<not> in_grid 3 1 (4, 0)"
proof (intro conjI)
  show "astar (5, 0) (0, 0) 3 1 {} =
     Some (Inr (Some [(5, 0), (4, 0), (3, 0), (2, 0), (1, 0), (0, 0)]))"
    by code_simp
  show "grid_step 3 1 {} (5, 0) (4, 0)"
    by (simp add: grid_step_def neighbors_def Let_def)
  show "\<not> in_grid 3 1 (4, 0)" by (simp add: in_grid_def)
qed

text \<open>
  Claim C7. When no walk along the successor relation leads from the start to the goal,
  \<open>astar\<close> terminates, does not raise, and returns \<open>None\<close>, its no-path result, whatever
  the width, the height and the blocked set are. When the solver was built by the
  constructor and no sequence of \<open>get_moves\<close> steps leads from the initial state to a
  state with the goal tiles, \<open>solve\<close> terminates, does not raise, and returns \<open>False\<close>
  with the empty path.
\<close>

theorem unreachable_goal:
  "(\<not> (\<exists>k. walk (grid_step width height blocked) start k goal) \<longrightarrow>
      astar start goal width height blocked = Some (Inr None)) \<and>
   (new_solver ts = Inr sv \<and>
    \<not> (\<exists>k g. walk move_step (initial_state sv) k g \<and> tiles g = goal_tiles) \<longrightarrow>
      (\<exists>n. solve sv = Some (Inr (False, [], n))))"
proof (intro conjI impI)
  assume "\<not> (\<exists>k. walk (grid_step width height blocked) start k goal)"
  then show "astar start goal width height blocked = Some (Inr None)"
    by (rule astar_unreachable)
next
  assume a: "new_solver ts = Inr sv \<and>
    \<not> (\<exists>k g. walk move_step (initial_state sv) k g \<and> tiles g = goal_tiles)"
  with solve_total [of ts sv] obtain found states n where
    r: "solve sv = Some (Inr (found, states, n))"
      "solve_post (initial_state sv) (found, states, n)" by auto
  show "\<exists>n. solve sv = Some (Inr (False, [], n))"
  proof (cases found)
    case False
    with r show ?thesis by (auto simp: solve_post_def)
  next
    case True
    with r(2) have "successively move_step states" "states \<noteq> []"
      "hd states = initial_state sv" "tiles (last states) = goal_tiles"
      by (simp_all add: solve_post_def)
    with successively_walk [of move_step states]
    have "walk move_step (initial_state sv) (length states - 1) (last states) \<and>
          tiles (last states) = goal_tiles" by simp
    with a show ?thesis by blast
  qed
qed

theorem unreachable_goal_witness:
  "\<not> (\<exists>k. walk (grid_step 5 3 {(1, 0), (1, 1), (1, 2)}) (0, 0) k (4, 2)) \<and>
   astar (0, 0) (4, 2) 5 3 {(1, 0), (1, 1), (1, 2)} = Some (Inr None) \<and>
   \<not> (\<exists>k g. walk move_step (PuzzleState [1, 2, 3, 4, 5, 6, 8, 7, 0] 0 None []) k g \<and>
             tiles g = goal_tiles) \<and>
   (\<exists>n. solve_tiles [1, 2, 3, 4, 5, 6, 8, 7, 0] = Some (Inr (False, [], n)))"
proof -
  let ?W = "{(1, 0), (1, 1), (1, 2)} :: Point set"
  let ?S = "{(0, 0), (0, 1), (0, 2)} :: Point set"
  let ?T = "[1, 2, 3, 4, 5, 6, 8, 7, 0] :: int list"
  let ?s0 = "PuzzleState ?T 0 None []"
  let ?sv = "\<lparr>initial_state = ?s0, goal_state = PuzzleState goal_tiles 0 None [],
              explored = {}, nodes_expanded = 0\<rparr>"
  note t = unreachable_goal [of 5 3 ?W "(0, 0)" "(4, 2)" ?T ?sv]
  have closed: "y \<in> ?S" if "x \<in> ?S" "grid_step 5 3 ?W x y" for x y
    using that by (auto simp: grid_step_def neighbors_def Let_def)
  have u: "\<not> (\<exists>k. walk (grid_step 5 3 ?W) (0, 0) k (4, 2))"
  proof
    assume "\<exists>k. walk (grid_step 5 3 ?W) (0, 0) k (4, 2)"
    then obtain k where "walk (grid_step 5 3 ?W) (0, 0) k (4, 2)" by blast
    from walk_closed [OF this, of ?S] closed have "(4, 2) \<in> ?S" by blast
    then show False by simp
  qed
  from mp [OF conjunct1 [OF t] u]
  have 1: "astar (0, 0) (4, 2) 5 3 ?W = Some (Inr None)" .
  have v: "valid_tiles ?T" by (simp add: valid_tiles_def upt_rec[of _ 9])
  then have n: "new_solver ?T = Inr ?sv" by (rule new_solver_valid)
  have "\<not> tiles_parity (tiles ?s0)" by (simp add: tiles_parity_def)
  with v have pu: "\<not> (\<exists>k g. walk move_step ?s0 k g \<and> tiles g = goal_tiles)"
    by (intro odd_parity_unsolvable) simp_all
  then have "\<not> (\<exists>k g. walk move_step (initial_state ?sv) k g \<and> tiles g = goal_tiles)"
    by simp
  from mp [OF conjunct2 [OF t] conjI [OF n this]]
  have "\<exists>n. solve ?sv = Some (Inr (False, [], n))" .
  with n have 2: "\<exists>n. solve_tiles ?T = Some (Inr (False, [], n))"
    by (simp add: solve_tiles_def)
  from u 1 pu 2 show ?thesis by (intro conjI)
qed

lemma astar_iter_Next_inv:
  assumes inv: "astar_inv start width height blocked st"
    and it: "astar_iter goal width height blocked st = Next st'"
  shows "astar_inv start width height blocked st' \<and> (st', st) \<in> astar_rel start width height"
proof -
  from it obtain p g current rest where
    h: "open_heap st = (p, g, current) # rest" and
    r: "relax_all goal blocked current (neighbors current width height) (st\<lparr>open_heap := rest\<rparr>) = Inr st'"
    by (rule astar_iter_Next)
  let ?st1 = "st\<lparr>open_heap := rest\<rparr>"
  from inv h have inv1: "astar_inv start width height blocked ?st1"
    by (simp add: astar_inv_def)
  from inv h have cur1: "current \<in> dom (gscore ?st1)"
    unfolding astar_inv_def by auto
  from relax_all_inv [OF inv1 cur1 subset_refl, of goal] r
  have st': "astar_inv start width height blocked st'"
    "relax_progress start width height ?st1 st'" by auto
  have "score_measure start width height ?st1 = score_measure start width height st"
    by (simp add: score_measure_def)
  with st'(2) h have "(st', st) \<in> astar_rel start width height"
    by (auto simp: astar_rel_def astar_measure_def relax_progress_def)
  with st'(1) show ?thesis by simp
qed

lemma relax_start_irrelevant:
  assumes inv: "astar_inv start width height blocked st"
    and cur: "current \<in> dom (gscore st)"
    and eq: "blocked - {start} = blocked' - {start}"
  shows "relax goal blocked current st nbr = relax goal blocked' current st nbr"
proof (cases "nbr = start")
  case True
  from cur obtain gc where gc: "gscore st current = Some gc" by auto
  from inv gc have g0: "0 \<le> gc" and s0: "gscore st start = Some 0"
    unfolding astar_inv_def by blast+
  have "relax goal X current st start = Inr st" for X
    using gc g0 s0 by (simp add: relax_def Let_def)
  with True show ?thesis by simp
next
  case False
  with eq have "nbr \<in> blocked \<longleftrightarrow> nbr \<in> blocked'" by blast
  then show ?thesis by (simp add: relax_def)
qed

lemma relax_all_start_irrelevant:
  assumes eq: "blocked - {start} = blocked' - {start}"
  shows "astar_inv start width height blocked st \<Longrightarrow> current \<in> dom (gscore st) \<Longrightarrow>
     set nbrs \<subseteq> set (neighbors current width height) \<Longrightarrow>
     relax_all goal blocked current nbrs st = relax_all goal blocked' current nbrs st"
proof (induction nbrs arbitrary: st)
  case Nil
  show ?case by simp
next
  case (Cons n nbrs)
  from Cons.prems(3) have n: "n \<in> set (neighbors current width height)"
    and sub: "set nbrs \<subseteq> set (neighbors current width height)" by simp_all
  from relax_inv [OF Cons.prems(1,2) n, of goal] obtain st1 where
    st1: "relax goal blocked current st n = Inr st1" "astar_inv start width height blocked st1"
      "current \<in> dom (gscore st1)" by blast
  from relax_start_irrelevant [OF Cons.prems(1,2) eq, of goal n] st1(1)
  have "relax goal blocked' current st n = Inr st1" by simp
  with st1(1) Cons.IH [OF st1(2,3) sub] show ?case by simp
qed

lemma astar_iter_start_irrelevant:
  assumes inv: "astar_inv start width height blocked st"
    and eq: "blocked - {start} = blocked' - {start}"
  shows "astar_iter goal width height blocked st = astar_iter goal width height blocked' st"
proof (cases "open_heap st")
  case Nil
  then show ?thesis by (simp add: astar_iter_def)
next
  case (Cons e rest)
  obtain p g current where e: "e = (p, g, current)" by (cases e) auto
  let ?st1 = "st\<lparr>open_heap := rest\<rparr>"
  from inv Cons have inv1: "astar_inv start width height blocked ?st1"
    by (simp add: astar_inv_def)
  from inv Cons e have cur1: "current \<in> dom (gscore ?st1)"
    unfolding astar_inv_def by auto
  from relax_all_start_irrelevant [OF eq inv1 cur1 subset_refl, of goal]
  show ?thesis using Cons e by (simp add: astar_iter_def)
qed

lemma astar_loop_start_irrelevant:
  assumes eq: "blocked - {start} = blocked' - {start}"
  shows "astar_inv start width height blocked st \<Longrightarrow>
     astar_loop goal width height blocked st = astar_loop goal width height blocked' st"
proof (induction st rule: wf_induct_rule [OF wf_astar_rel [of start width height]])
  case (1 st)
  note it = astar_iter_start_irrelevant [OF "1.prems" eq, of goal]
  show ?case
  proof (cases "astar_iter goal width height blocked st")
    case (Done r)
    with it have d': "astar_iter goal width height blocked' st = Done r" by simp
    have "astar_loop goal width height blocked st = r"
      by (subst astar_loop.simps) (simp add: Done)
    moreover have "astar_loop goal width height blocked' st = r"
      by (subst astar_loop.simps) (simp add: d')
    ultimately show ?thesis by simp
  next
    case (Next st')
    with it have n': "astar_iter goal width height blocked' st = Next st'" by simp
    from astar_iter_Next_inv [OF "1.prems" Next]
    have "astar_inv start width height blocked st'" "(st', st) \<in> astar_rel start width height"
      by simp_all
    from "1.IH" [OF this(2,1)]
    have ih: "astar_loop goal width height blocked st' = astar_loop goal width height blocked' st'" .
    have "astar_loop goal width height blocked st = astar_loop goal width height blocked st'"
      by (subst astar_loop.simps) (simp add: Next)
    moreover have "astar_loop goal width height blocked' st = astar_loop goal width height blocked' st'"
      by (subst astar_loop.simps) (simp add: n')
    ultimately show ?thesis using ih by simp
  qed
qed

lemma astar_start_irrelevant:
  "astar start goal width height blocked = astar start goal width height (blocked - {start})"
  unfolding astar_def
  by (rule astar_loop_start_irrelevant [OF _ astar_init_inv]) simp

text \<open>
  Claim C10. \<open>astar\<close> does not look up the start or the goal in the blocked set. Whether
  the start is in the blocked set makes no difference to the result, for any goal: the
  result is that of the same search with the start taken out of the blocked set. With start
  equal to goal it returns the one-element path, whatever the blocked set is, also when it
  holds that cell. With the goal in the blocked set and the start another cell, it returns
  \<open>None\<close>: the goal is never a successor, since blocked cells are skipped in the loop over
  the neighbours.
\<close>

theorem blocked_endpoints:
  "astar start goal width height blocked = astar start goal width height (blocked - {start}) \<and>
   astar s s width height blocked = Some (Inr (Some [s])) \<and>
   (goal \<in> blocked \<and> start \<noteq> goal \<longrightarrow>
      astar start goal width height blocked = Some (Inr None))"
proof (intro conjI impI)
  show "astar start goal width height blocked = astar start goal width height (blocked - {start})"
    by (rule astar_start_irrelevant)
next
  show "astar s s width height blocked = Some (Inr (Some [s]))"
    unfolding astar_def by (subst astar_loop.simps) (simp add: astar_iter_trivial)
next
  assume "goal \<in> blocked \<and> start \<noteq> goal"
  then have "\<not> (\<exists>n. walk (grid_step width height blocked) start n goal)"
    by (simp add: blocked_goal_unreachable)
  then show "astar start goal width height blocked = Some (Inr None)"
    by (rule astar_unreachable)
qed

theorem blocked_endpoints_witness:
  "astar (1, 1) (1, 1) 5 3 {(1, 0), (1, 1), (3, 1)} = Some (Inr (Some [(1, 1)])) \<and>
   astar (0, 0) (3, 1) 5 3 {(1, 0), (1, 1), (3, 1)} = Some (Inr None) \<and>
   astar (0, 0) (2, 0) 3 1 {(0, 0)} = Some (Inr (Some [(0, 0), (1, 0), (2, 0)]))"
proof -
  note t = blocked_endpoints [of "(0, 0)" "(3, 1)" 5 3 "{(1, 0), (1, 1), (3, 1)}" "(1, 1)"]
  have "(3, 1) \<in> {(1, 0), (1, 1), (3, 1) :: Point} \<and> (0, 0) \<noteq> ((3, 1) :: Point)" by simp
  from mp [OF conjunct2 [OF conjunct2 [OF t]] this]
  have 1: "astar (0, 0) (3, 1) 5 3 {(1, 0), (1, 1), (3, 1)} = Some (Inr None)" .
  note 2 = conjunct1 [OF conjunct2 [OF t]]
  have "astar (0, 0) (2, 0) 3 1 ({(0, 0)} - {(0, 0)}) =
          Some (Inr (Some [(0, 0), (1, 0), (2, 0)]))"
    by code_simp
  with conjunct1 [OF blocked_endpoints [of "(0, 0)" "(2, 0)" 3 1 "{(0, 0)}" "(0, 0)"]]
  have 3: "astar (0, 0) (2, 0) 3 1 {(0, 0)} = Some (Inr (Some [(0, 0), (1, 0), (2, 0)]))"
    by (rule trans)
  from 2 1 3 show ?thesis by (intro conjI)
qed

section \<open>Shortest paths of the grid search\<close>

lemma walk_append: "walk R b m c \<Longrightarrow> walk R a n b \<Longrightarrow> walk R a (n + m) c"
proof (induction rule: walk.induct)
  case (walk_refl b)
  then show ?case by simp
next
  case (walk_step b m c d)
  then have "walk R a (Suc (n + m)) d" by (blast intro: walk.walk_step)
  then show ?case by simp
qed

lemma walk_list:
  "walk R a n b \<Longrightarrow> \<exists>xs. length xs = Suc n \<and> hd xs = a \<and> last xs = b \<and> successively R xs"
proof (induction rule: walk.induct)
  case (walk_refl a)
  show ?case by (intro exI [of _ "[a]"]) simp
next
  case (walk_step a n b c)
  then obtain xs where xs: "length xs = Suc n" "hd xs = a" "last xs = b" "successively R xs"
    by blast
  then have ne: "xs \<noteq> []" by auto
  with xs walk_step.hyps(2) have "successively R (xs @ [c])"
    by (simp add: successively_append_iff)
  with xs ne show ?case by (intro exI [of _ "xs @ [c]"]) simp
qed

lemma list_walk:
  assumes "successively R xs"
  shows "j < length xs \<Longrightarrow> i \<le> j \<Longrightarrow> walk R (xs ! i) (j - i) (xs ! j)"
proof (induction j)
  case 0
  then show ?case by (simp add: walk_refl)
next
  case (Suc j)
  show ?case
  proof (cases "i = Suc j")
    case True
    then show ?thesis by (simp add: walk_refl)
  next
    case False
    with Suc.prems have ij: "i \<le> j" "j < length xs" by simp_all
    with Suc.IH have "walk R (xs ! i) (j - i) (xs ! j)" by simp
    moreover from assms Suc.prems(1) have "R (xs ! j) (xs ! Suc j)"
      by (simp add: successively_conv_nth)
    ultimately have "walk R (xs ! i) (Suc (j - i)) (xs ! Suc j)" by (rule walk_step)
    with ij show ?thesis by (simp add: Suc_diff_le)
  qed
qed

lemma walk_back_bound:
  assumes inv: "astar_inv start width height blocked st"
  shows "gscore st c = Some g \<Longrightarrow>
     \<exists>chain. walk_back (came_from st) (Some c) acc = Some (Inr (acc @ chain)) \<and>
        int (length chain) \<le> g + 1"
proof (induction "nat g" arbitrary: c g acc rule: less_induct)
  case less
  from inv less.prems have g0: "0 \<le> g" unfolding astar_inv_def by blast
  show ?case
  proof (cases "c = start")
    case True
    from inv have "came_from st start = Some None" by (simp add: astar_inv_def)
    with True have "walk_back (came_from st) (Some c) acc = Some (Inr (acc @ [c]))"
      by (simp add: walk_back.simps)
    with g0 show ?thesis by (intro exI [of _ "[c]"]) simp
  next
    case False
    with inv less.prems obtain p gp where p: "came_from st c = Some (Some p)"
      "gscore st p = Some gp" "gp < g"
      unfolding astar_inv_def by blast
    from inv p(2) have "0 \<le> gp" unfolding astar_inv_def by blast
    with p(3) have "nat gp < nat g" by simp
    from less.hyps [OF this p(2), of "acc @ [c]"] obtain chain where
      ch: "walk_back (came_from st) (Some p) (acc @ [c]) = Some (Inr ((acc @ [c]) @ chain))"
        "int (length chain) \<le> gp + 1" by blast
    from p(1) ch(1) have "walk_back (came_from st) (Some c) acc = Some (Inr (acc @ (c # chain)))"
      by (subst walk_back.simps) simp
    with ch(2) p(3) show ?thesis by (intro exI [of _ "c # chain"]) simp
  qed
qed

lemma gscore_walk:
  assumes "astar_inv start width height blocked st" "gscore st c = Some g"
  shows "\<exists>n. walk (grid_step width height blocked) start n c \<and> int n \<le> g"
proof -
  from walk_back_chain [OF assms, of "[]"] obtain chain where
    ch: "walk_back (came_from st) (Some c) [] = Some (Inr chain)"
      "chain \<noteq> []" "hd chain = c" "last chain = start"
      "successively (\<lambda>a b. grid_step width height blocked b a) chain" by auto
  from walk_back_bound [OF assms, of "[]"] ch(1) have len: "int (length chain) \<le> g + 1" by simp
  from ch(2-5) successively_walk [of "grid_step width height blocked" "rev chain"]
  have "walk (grid_step width height blocked) start (length chain - 1) c"
    by (simp add: hd_rev last_rev)
  moreover from len ch(2) have "int (length chain - 1) \<le> g"
    by (cases chain) simp_all
  ultimately show ?thesis by blast
qed

lemma shortest_walk_lower:
  assumes sw: "shortest_walk (grid_step width height blocked) start goal xs"
    and inv: "astar_inv start width height blocked st"
    and j: "j < length xs" and g: "gscore st (xs ! j) = Some g"
  shows "int j \<le> g"
proof -
  let ?R = "grid_step width height blocked"
  from sw have ne: "xs \<noteq> []" and hd: "hd xs = start" and last: "last xs = goal"
    and succ: "successively ?R xs" and least: "\<forall>n. walk ?R start n goal \<longrightarrow> length xs \<le> Suc n"
    by (simp_all add: shortest_walk_def)
  from gscore_walk [OF inv g] obtain n where n: "walk ?R start n (xs ! j)" "int n \<le> g" by blast
  from list_walk [OF succ, of "length xs - 1" j] j ne
  have "walk ?R (xs ! j) (length xs - 1 - j) (xs ! (length xs - 1))" by simp
  with last ne have "walk ?R (xs ! j) (length xs - 1 - j) goal" by (simp add: last_conv_nth)
  from walk_append [OF this n(1)] least have "length xs \<le> Suc (n + (length xs - 1 - j))" by blast
  with j have "j \<le> n" by simp
  with n(2) show ?thesis by simp
qed

lemma relaxed_refl: "relaxed goal st st"
  by (simp add: relaxed_def)

lemma relaxed_trans: "relaxed goal st st1 \<Longrightarrow> relaxed goal st1 st2 \<Longrightarrow> relaxed goal st st2"
  unfolding relaxed_def
  apply (intro conjI allI impI)
    apply (metis order_trans)
   apply blast
  apply (metis subsetD)
  done

lemma relax_relaxed:
  assumes gc: "gscore st current = Some gc"
    and r: "relax goal blocked current st nbr = Inr st'"
    and cur: "nbr \<noteq> current"
    and ok: "heap_ok goal st"
  shows "relaxed goal st st' \<and> heap_ok goal st' \<and> gscore st' current = Some gc \<and>
         (nbr \<notin> blocked \<longrightarrow> (\<exists>g'. gscore st' nbr = Some g' \<and> g' \<le> gc + 1))"
proof (cases "nbr \<in> blocked \<or> \<not> (gscore st nbr = None \<or> gc + 1 < the (gscore st nbr))")
  case True
  with gc have "relax goal blocked current st nbr = Inr st" by (auto simp: relax_def Let_def)
  with r have e: "st' = st" by simp
  from True have "nbr \<notin> blocked \<longrightarrow> (\<exists>g'. gscore st nbr = Some g' \<and> g' \<le> gc + 1)" by auto
  with e gc ok show ?thesis by (simp add: relaxed_refl)
next
  case False
  let ?g = "gc + 1"
  let ?e = "(?g + manhattan nbr goal, ?g, nbr)"
  from False gc have "relax goal blocked current st nbr =
      Inr (st\<lparr>gscore := (gscore st)(nbr \<mapsto> ?g),
                 open_heap := heappush id (open_heap st) ?e,
                 a_pushed := a_pushed st @ [?e],
                 came_from := (came_from st)(nbr \<mapsto> Some current)\<rparr>)"
    by (auto simp: relax_def Let_def)
  with r have e: "st' = st\<lparr>gscore := (gscore st)(nbr \<mapsto> ?g),
                 open_heap := heappush id (open_heap st) ?e,
                 a_pushed := a_pushed st @ [?e],
                 came_from := (came_from st)(nbr \<mapsto> Some current)\<rparr>"
    by simp
  from False have lt: "gscore st nbr = Some old \<Longrightarrow> ?g < old" for old by auto
  have heap: "set (open_heap st') = insert ?e (set (open_heap st))"
    by (simp add: e heappush_def set_insort_key)
  have gs: "gscore st' = (gscore st)(nbr \<mapsto> ?g)" by (simp add: e)
  have 1: "relaxed goal st st'"
    unfolding relaxed_def heap gs using lt by (auto simp: less_imp_le)
  have "sorted (open_heap st')"
    using ok sorted_insort_key [of id ?e "open_heap st"]
    by (simp add: e heappush_def heap_ok_def)
  moreover have "fst x = fst (snd x) + manhattan (snd (snd x)) goal \<and>
        (\<exists>g'. gscore st' (snd (snd x)) = Some g' \<and> g' \<le> fst (snd x))"
    if "x \<in> set (open_heap st')" for x
  proof (cases "x = ?e")
    case True
    then show ?thesis by (simp add: gs)
  next
    case False
    with that heap have "x \<in> set (open_heap st)" by simp
    with ok obtain g' where g': "fst x = fst (snd x) + manhattan (snd (snd x)) goal"
      "gscore st (snd (snd x)) = Some g'" "g' \<le> fst (snd x)"
      by (auto simp: heap_ok_def)
    show ?thesis
    proof (cases "snd (snd x) = nbr")
      case True
      with g'(2) lt have "?g < g'" by simp
      with g' True show ?thesis by (simp add: gs)
    next
      case False
      with g' show ?thesis by (simp add: gs)
    qed
  qed
  ultimately have 2: "heap_ok goal st'" by (simp add: heap_ok_def)
  from cur gc have 3: "gscore st' current = Some gc" by (simp add: gs)
  have 4: "\<exists>g'. gscore st' nbr = Some g' \<and> g' \<le> gc + 1" by (simp add: gs)
  from 1 2 3 4 show ?thesis by blast
qed

lemma relax_all_relaxed:
  assumes "gscore st current = Some gc" "relax_all goal blocked current nbrs st = Inr st'"
    "current \<notin> set nbrs" "heap_ok goal st"
  shows "relaxed goal st st' \<and> heap_ok goal st' \<and> gscore st' current = Some gc \<and>
         (\<forall>nbr\<in>set nbrs. nbr \<notin> blocked \<longrightarrow> (\<exists>g'. gscore st' nbr = Some g' \<and> g' \<le> gc + 1))"
  using assms
proof (induction nbrs arbitrary: st)
  case Nil
  then show ?case by (simp add: relaxed_refl)
next
  case (Cons n nbrs)
  from Cons.prems(2) obtain st1 where
    a: "relax goal blocked current st n = Inr st1" and
    b: "relax_all goal blocked current nbrs st1 = Inr st'"
    by (auto split: sum.splits)
  from Cons.prems(3) have nc: "n \<noteq> current" "current \<notin> set nbrs" by auto
  from relax_relaxed [OF Cons.prems(1) a nc(1) Cons.prems(4)]
  have s1: "relaxed goal st st1" "heap_ok goal st1" "gscore st1 current = Some gc"
    "n \<notin> blocked \<longrightarrow> (\<exists>g'. gscore st1 n = Some g' \<and> g' \<le> gc + 1)" by blast+
  from Cons.IH [OF s1(3) b nc(2) s1(2)]
  have s2: "relaxed goal st1 st'" "heap_ok goal st'" "gscore st' current = Some gc"
    "\<forall>nbr\<in>set nbrs. nbr \<notin> blocked \<longrightarrow> (\<exists>g'. gscore st' nbr = Some g' \<and> g' \<le> gc + 1)"
    by blast+
  have "\<exists>g'. gscore st' n = Some g' \<and> g' \<le> gc + 1" if "n \<notin> blocked"
  proof -
    from that s1(4) obtain g1 where "gscore st1 n = Some g1" "g1 \<le> gc + 1" by blast
    with s2(1) show ?thesis unfolding relaxed_def by (metis order_trans)
  qed
  with relaxed_trans [OF s1(1) s2(1)] s2(2-4) show ?case by simp
qed

lemma on_track_step:
  assumes sw: "shortest_walk (grid_step width height blocked) start goal xs"
    and inv': "astar_inv start width height blocked st'"
    and heap: "open_heap st = (p, g, cur) # rest"
    and ng: "cur \<noteq> goal"
    and gc: "gscore st cur = Some gc"
    and r: "relax_all goal blocked cur (neighbors cur width height) (st\<lparr>open_heap := rest\<rparr>) = Inr st'"
    and ok: "heap_ok goal st"
    and tr: "on_track goal xs st"
  shows "on_track goal xs st' \<and> heap_ok goal st'"
proof -
  let ?R = "grid_step width height blocked"
  let ?st1 = "st\<lparr>open_heap := rest\<rparr>"
  from sw have ne: "xs \<noteq> []" and last: "last xs = goal" and succ: "successively ?R xs"
    by (simp_all add: shortest_walk_def)
  from ok heap have ok1: "heap_ok goal ?st1" by (simp add: heap_ok_def)
  have "cur \<notin> set (neighbors cur width height)" using neighbors_neq by blast
  from relax_all_relaxed [OF _ r this ok1, of gc] gc
  have rel: "relaxed goal ?st1 st'" and ok': "heap_ok goal st'"
    and nb: "\<forall>nbr\<in>set (neighbors cur width height). nbr \<notin> blocked \<longrightarrow>
               (\<exists>g'. gscore st' nbr = Some g' \<and> g' \<le> gc + 1)"
    by simp_all
  from rel have r1: "\<forall>c g. gscore st c = Some g \<longrightarrow> (\<exists>g'. gscore st' c = Some g' \<and> g' \<le> g)"
    and sub: "set rest \<subseteq> set (open_heap st')"
    and r3: "\<forall>c g. gscore st' c = Some g \<longrightarrow>
        gscore st c = Some g \<or> (g + manhattan c goal, g, c) \<in> set (open_heap st')"
    by (simp_all add: relaxed_def del: split_paired_All)
  from r1 have mono: "\<And>c g. gscore st c = Some g \<Longrightarrow> \<exists>g'. gscore st' c = Some g' \<and> g' \<le> g"
    by blast
  from r3 have new: "\<And>c g. gscore st' c = Some g \<Longrightarrow>
        gscore st c = Some g \<or> (g + manhattan c goal, g, c) \<in> set (open_heap st')"
    by blast
  have next_ok: "gscore st' (xs ! Suc j) = Some (int (Suc j))"
    if j: "Suc j < length xs" and le: "gscore st' (xs ! Suc j) = Some g'" "g' \<le> int j + 1" for j g'
  proof -
    from shortest_walk_lower [OF sw inv' j le(1)] le(2) have "g' = int (Suc j)" by simp
    with le(1) show ?thesis by simp
  qed
  have "entry_of goal xs j \<in> set (open_heap st') \<or>
        (Suc j < length xs \<and> gscore st' (xs ! Suc j) = Some (int (Suc j)))"
    if j: "j < length xs" and gj: "gscore st' (xs ! j) = Some (int j)" for j
  proof -
    from new [OF gj] consider
      (fresh) "(int j + manhattan (xs ! j) goal, int j, xs ! j) \<in> set (open_heap st')"
      | (old) "gscore st (xs ! j) = Some (int j)" by blast
    then show ?thesis
    proof cases
      case fresh
      then show ?thesis by (simp add: entry_of_def)
    next
      case old
      with tr j consider
        (head) "entry_of goal xs j = (p, g, cur)"
        | (tail) "entry_of goal xs j \<in> set rest"
        | (succ) "Suc j < length xs" "gscore st (xs ! Suc j) = Some (int (Suc j))"
        unfolding on_track_def heap by auto
      then show ?thesis
      proof cases
        case tail
        with sub show ?thesis by blast
      next
        case succ
        from mono [OF succ(2)] obtain g' where "gscore st' (xs ! Suc j) = Some g'" "g' \<le> int j + 1"
          by auto
        with next_ok [OF succ(1)] succ(1) show ?thesis by blast
      next
        case head
        then have c: "xs ! j = cur" by (simp add: entry_of_def)
        with old gc have gcj: "gc = int j" by simp
        have "j \<noteq> length xs - 1"
          using c ng last ne by (auto simp: last_conv_nth)
        with j have sj: "Suc j < length xs" by simp
        with succ have "?R (xs ! j) (xs ! Suc j)" by (simp add: successively_conv_nth)
        with c have "xs ! Suc j \<in> set (neighbors cur width height)" "xs ! Suc j \<notin> blocked"
          by (simp_all add: grid_step_def)
        with nb gcj obtain g' where "gscore st' (xs ! Suc j) = Some g'" "g' \<le> int j + 1"
          by blast
        with next_ok [OF sj] sj show ?thesis by blast
      qed
    qed
  qed
  then have "on_track goal xs st'" by (simp add: on_track_def)
  with ok' show ?thesis by simp
qed

lemma on_track_entry:
  assumes "on_track goal xs st"
  shows "j < length xs \<Longrightarrow> gscore st (xs ! j) = Some (int j) \<Longrightarrow>
     \<exists>i<length xs. entry_of goal xs i \<in> set (open_heap st)"
proof (induction "length xs - j" arbitrary: j rule: less_induct)
  case less
  from assms less.prems consider
    (here) "entry_of goal xs j \<in> set (open_heap st)"
    | (succ) "Suc j < length xs" "gscore st (xs ! Suc j) = Some (int (Suc j))"
    unfolding on_track_def by blast
  then show ?case
  proof cases
    case here
    with less.prems(1) show ?thesis by blast
  next
    case succ
    from succ(1) have "length xs - Suc j < length xs - j" by simp
    from less.hyps [OF this succ] show ?thesis .
  qed
qed

lemma astar_loop_shortest:
  assumes sw: "shortest_walk (grid_step width height blocked) start goal xs"
  shows "astar_inv start width height blocked st \<Longrightarrow> heap_ok goal st \<Longrightarrow> on_track goal xs st \<Longrightarrow>
   \<exists>path. astar_loop goal width height blocked st = Some (Inr (Some path)) \<and>
       length path = length xs"
proof (induction st rule: wf_induct_rule [OF wf_astar_rel [of start width height]])
  case (1 st)
  note inv = "1.prems"(1) and ok = "1.prems"(2) and tr = "1.prems"(3)
  let ?R = "grid_step width height blocked"
  from sw have ne: "xs \<noteq> []" and hd: "hd xs = start" and last: "last xs = goal"
    and succ: "successively ?R xs" and least: "\<forall>n. walk ?R start n goal \<longrightarrow> length xs \<le> Suc n"
    by (simp_all add: shortest_walk_def)
  from inv have "gscore st start = Some 0" by (simp add: astar_inv_def)
  with hd ne have "gscore st (xs ! 0) = Some (int 0)" by (simp add: hd_conv_nth)
  with on_track_entry [OF tr, of 0] ne obtain i where
    i: "i < length xs" "entry_of goal xs i \<in> set (open_heap st)" by auto
  then obtain e rest where Cons: "open_heap st = e # rest" by (cases "open_heap st") auto
  obtain p g current where e: "e = (p, g, current)" by (cases e) auto
  from inv Cons e have cur: "current \<in> dom (gscore st)"
    unfolding astar_inv_def by auto
  then obtain gc where gc: "gscore st current = Some gc" by auto
  show ?case
  proof (cases "current = goal")
    case True
    from ok Cons i(2) have "e \<le> entry_of goal xs i" by (auto simp: heap_ok_def)
    then have "p \<le> int i + manhattan (xs ! i) goal"
      by (auto simp: e entry_of_def less_eq_prod_def)
    moreover from list_walk [OF succ, of "length xs - 1" i] i(1) last ne
    have "walk ?R (xs ! i) (length xs - 1 - i) goal" by (simp add: last_conv_nth)
    then have "manhattan (xs ! i) goal \<le> int (length xs - 1 - i)" by (rule grid_walk_manhattan)
    ultimately have p: "p < int (length xs)" using i(1) by simp
    from ok Cons e True gc have "p = g" "gc \<le> g"
      by (auto simp: heap_ok_def manhattan_self)
    with p have gcb: "gc + 1 \<le> int (length xs)" by simp
    from walk_back_chain [OF inv gc, of "[]"] obtain chain where
      ch: "walk_back (came_from st) (Some current) [] = Some (Inr chain)"
        "chain \<noteq> []" "hd chain = current" "last chain = start"
        "successively (\<lambda>a b. ?R b a) chain" by auto
    from walk_back_bound [OF inv gc, of "[]"] ch(1) have "int (length chain) \<le> gc + 1" by simp
    with gcb have up: "length chain \<le> length xs" by simp
    from ch(2-5) True successively_walk [of ?R "rev chain"]
    have "walk ?R start (length chain - 1) goal" by (simp add: hd_rev last_rev)
    with least have "length xs \<le> Suc (length chain - 1)" by blast
    with ch(2) up have len: "length chain = length xs" by (cases chain) simp_all
    from Cons e True ch(1)
    have "astar_iter goal width height blocked st = Done (Some (Inr (Some (rev chain))))"
      by (simp add: astar_iter_def)
    then have "astar_loop goal width height blocked st = Some (Inr (Some (rev chain)))"
      by (subst astar_loop.simps) simp
    with len show ?thesis by simp
  next
    case False
    let ?st1 = "st\<lparr>open_heap := rest\<rparr>"
    from inv Cons have inv1: "astar_inv start width height blocked ?st1"
      by (simp add: astar_inv_def)
    from cur have cur1: "current \<in> dom (gscore ?st1)" by simp
    from relax_all_inv [OF inv1 cur1 subset_refl, of goal] obtain st' where
      st': "relax_all goal blocked current (neighbors current width height) ?st1 = Inr st'"
        "astar_inv start width height blocked st'"
        "relax_progress start width height ?st1 st'" by blast
    from Cons e False st'(1)
    have it: "astar_iter goal width height blocked st = Next st'"
      by (simp add: astar_iter_def)
    have "score_measure start width height ?st1 = score_measure start width height st"
      by (simp add: score_measure_def)
    with st'(3) Cons have less: "(st', st) \<in> astar_rel start width height"
      by (auto simp: astar_rel_def astar_measure_def relax_progress_def)
    from Cons e have h: "open_heap st = (p, g, current) # rest" by simp
    from on_track_step [OF sw st'(2) h False gc st'(1) ok tr]
    have "on_track goal xs st'" "heap_ok goal st'" by simp_all
    from "1.IH" [OF less st'(2) this(2,1)] obtain path where
      "astar_loop goal width height blocked st' = Some (Inr (Some path))"
      "length path = length xs" by blast
    with it show ?thesis by (subst astar_loop.simps) simp
  qed
qed

lemma astar_shortest:
  assumes "walk (grid_step width height blocked) start k goal"
    and "\<forall>n. walk (grid_step width height blocked) start n goal \<longrightarrow> k \<le> n"
  shows "\<exists>path. astar start goal width height blocked = Some (Inr (Some path)) \<and>
           length path = Suc k"
proof -
  let ?R = "grid_step width height blocked"
  from walk_list [OF assms(1)] obtain xs where
    xs: "length xs = Suc k" "hd xs = start" "last xs = goal" "successively ?R xs" by blast
  then have ne: "xs \<noteq> []" by auto
  with xs assms(2) have sw: "shortest_walk ?R start goal xs"
    by (simp add: shortest_walk_def)
  have ok: "heap_ok goal (astar_init start goal)"
    by (simp add: heap_ok_def astar_init_def heappush_def)
  have tr: "on_track goal xs (astar_init start goal)"
    unfolding on_track_def
  proof (intro allI impI)
    fix j assume "j < length xs" "gscore (astar_init start goal) (xs ! j) = Some (int j)"
    then have "xs ! j = start" "j = 0"
      by (auto simp: astar_init_def split: if_splits)
    then show "entry_of goal xs j \<in> set (open_heap (astar_init start goal)) \<or>
        (Suc j < length xs \<and> gscore (astar_init start goal) (xs ! Suc j) = Some (int (Suc j)))"
      by (simp add: entry_of_def astar_init_def heappush_def)
  qed
  from astar_loop_shortest [OF sw astar_init_inv ok tr] xs(1)
  show ?thesis by (simp add: astar_def)
qed

text \<open>Both loops return a path only in an iteration that popped a goal state from the
  frontier.\<close>

lemma astar_iter_found:
  assumes "astar_iter goal width height blocked st = Done (Some (Inr (Some path)))"
  shows "\<exists>p g rest. open_heap st = (p, g, goal) # rest"
  using assms unfolding astar_iter_def
  by (auto split: list.splits if_splits sum.splits)

lemma solve_iter_found:
  assumes "solve_iter st = Done (Inr (True, path, n))"
  shows "\<exists>f c current rest. open_set st = (f, c, current) # rest \<and> is_goal current = Inr True"
  using assms unfolding solve_iter_def
  by (auto simp: Let_def split: list.splits sum.splits bool.splits)

section \<open>A run of the puzzle search that is not shortest\<close>

lemma walk_Cons: "walk R b n c \<Longrightarrow> R a b \<Longrightarrow> walk R a (Suc n) c"
proof (induction rule: walk.induct)
  case (walk_refl b)
  from walk.walk_refl [of R a] walk_refl show ?case by (rule walk.walk_step)
next
  case (walk_step b n c d)
  then show ?case by (blast intro: walk.walk_step)
qed

lemma follow_walk: "follow s ds = Some g \<Longrightarrow> walk move_step s (length ds) g"
proof (induction ds arbitrary: s)
  case Nil
  then show ?case by (simp add: walk_refl)
next
  case (Cons d ds)
  from Cons.prems obtain ms m where
    m: "get_moves s = Inr ms" "find (\<lambda>m. move_description m = d) ms = Some m"
      "follow m ds = Some g"
    by (auto split: sum.splits option.splits)
  from m(2) have "m \<in> set ms" by (auto simp: find_Some_iff)
  with m(1) have "move_step s m" by (simp add: move_step_def)
  with Cons.IH [OF m(3)] show ?case by (simp add: walk_Cons)
qed

text \<open>
  Claim C1 on the code. The grid search returns shortest paths (\<open>astar_shortest\<close>), and
  both searches return a path only when a goal state is popped (\<open>astar_iter_found\<close>,
  \<open>solve_iter_found\<close>). The puzzle search does not always return a shortest path: for
  the instance \<open>[1,2,3,8,6,7,4,0,5]\<close>, \<open>solve\<close> returns a path of 14 states, that is
  13 moves, after 70 pops, although 11 \<open>get_moves\<close> steps lead from the initial state to
  the goal tiles. A state is put into \<open>visited\<close> when it is first generated and is never
  given a shorter route afterwards.
\<close>

theorem solve_not_shortest:
  "(\<exists>path. solve_tiles [1, 2, 3, 8, 6, 7, 4, 0, 5] = Some (Inr (True, path, 70)) \<and>
           length path = 14) \<and>
   (\<exists>g. walk move_step (PuzzleState [1, 2, 3, 8, 6, 7, 4, 0, 5] 0 None []) 11 g \<and>
        tiles g = goal_tiles)"
proof
  have "map_option (map_sum id (\<lambda>(found, path, n). (found, length path, n)))
          (solve_tiles [1, 2, 3, 8, 6, 7, 4, 0, 5]) = Some (Inr (True, 14, 70))"
    by code_simp
  then show "\<exists>path. solve_tiles [1, 2, 3, 8, 6, 7, 4, 0, 5] = Some (Inr (True, path, 70)) \<and>
           length path = 14"
    by (cases "solve_tiles [1, 2, 3, 8, 6, 7, 4, 0, 5]") (auto simp: map_sum_def split: sum.splits)
next
  define dirs where "dirs = [''up'', ''right'', ''down'', ''left'', ''up'', ''left'', ''down'',
    ''right'', ''up'', ''right'', ''down'']"
  have "map_option tiles (follow (PuzzleState [1, 2, 3, 8, 6, 7, 4, 0, 5] 0 None []) dirs) =
          Some goal_tiles"
    unfolding dirs_def by code_simp
  then obtain g where
    g: "follow (PuzzleState [1, 2, 3, 8, 6, 7, 4, 0, 5] 0 None []) dirs = Some g"
      "tiles g = goal_tiles"
    by blast
  have "length dirs = 11" by (simp add: dirs_def)
  with follow_walk [OF g(1)]
  have "walk move_step (PuzzleState [1, 2, 3, 8, 6, 7, 4, 0, 5] 0 None []) 11 g" by simp
  with g(2) show
    "\<exists>g. walk move_step (PuzzleState [1, 2, 3, 8, 6, 7, 4, 0, 5] 0 None []) 11 g \<and>
        tiles g = goal_tiles"
    by blast
qed

end
